theory Spec2Isabelle
  imports Main "HOL-Library.Word"
begin

section \<open>JavaScript values\<close>

text \<open>
  The command-menu module (\<^verbatim>\<open>modules/@apostrophecms/command-menu/index.js\<close>) works on
  untyped data contributed by other modules, and its validator exists because that data
  may have any shape. The embedding therefore keeps the values dynamic: a value is
  \<^verbatim>\<open>undefined\<close>, \<^verbatim>\<open>null\<close>, a boolean, a number, a string, an array or a plain object.

  \<^item> An object is the list of its own enumerable properties in the order in which
    \<^verbatim>\<open>Object.entries\<close> reports them. Its prototype is \<^verbatim>\<open>Object.prototype\<close>, as for every
    object written as a literal or read from JSON; what a value inherits is the subject
    of the subsection on inherited members.
  \<^item> Numbers are the integers from \<open>-2\<^sup>5\<^sup>3\<close> to \<open>2\<^sup>5\<^sup>3 - 1\<close>, as signed words of 54 bits,
    and \<^verbatim>\<open>NaN\<close>. Each of these integers is a Number value and prints as its decimal
    numeral. The module only asks a number for its type, its truthiness and its
    property-key string.
  \<^item> Function values do not occur: the fragments have been resolved by the collector
    (\<^verbatim>\<open>composeCommandsForModule\<close>) before composition starts.
\<close>

datatype jsval =
    JUndefined
  | JNull
  | JBool bool
  | JNum "54 word"
  | JNaN
  | JStr string
  | JArr "jsval list"
  | JObj "(string \<times> jsval) list"

datatype error =
    TypeError
  | AssertionError string

type_synonym props = "(string \<times> jsval) list"

subsection \<open>Exceptions as values\<close>

fun ebind :: "error + 'a \<Rightarrow> ('a \<Rightarrow> error + 'b) \<Rightarrow> error + 'b" where
  "ebind (Inl e) f = Inl e"
| "ebind (Inr x) f = f x"

text \<open>\<^verbatim>\<open>xs.map(f)\<close> where \<open>f\<close> may throw: the first exception ends the traversal.\<close>

fun emap :: "('a \<Rightarrow> error + 'b) \<Rightarrow> 'a list \<Rightarrow> error + 'b list" where
  "emap f [] = Inr []"
| "emap f (x # xs) = ebind (f x) (\<lambda>y. ebind (emap f xs) (\<lambda>ys. Inr (y # ys)))"

text \<open>\<^verbatim>\<open>xs.reduce(f, init)\<close> and \<^verbatim>\<open>xs.forEach\<close> over an accumulator, left to right.\<close>

fun efold :: "('b \<Rightarrow> 'a \<Rightarrow> error + 'b) \<Rightarrow> 'a list \<Rightarrow> 'b \<Rightarrow> error + 'b" where
  "efold f [] acc = Inr acc"
| "efold f (x # xs) acc = ebind (f acc x) (efold f xs)"

subsection \<open>Primitive operations\<close>

fun truthy :: "jsval \<Rightarrow> bool" where
  "truthy JUndefined = False"
| "truthy JNull = False"
| "truthy (JBool b) = b"
| "truthy (JNum n) = (n \<noteq> 0)"
| "truthy JNaN = False"
| "truthy (JStr s) = (s \<noteq> [])"
| "truthy (JArr xs) = True"
| "truthy (JObj kvs) = True"

fun typeof :: "jsval \<Rightarrow> string" where
  "typeof JUndefined = ''undefined''"
| "typeof JNull = ''object''"
| "typeof (JBool b) = ''boolean''"
| "typeof (JNum n) = ''number''"
| "typeof JNaN = ''number''"
| "typeof (JStr s) = ''string''"
| "typeof (JArr xs) = ''object''"
| "typeof (JObj kvs) = ''object''"

definition nullish :: "jsval \<Rightarrow> bool" where
  "nullish v = (v = JUndefined \<or> v = JNull)"

text \<open>\<^verbatim>\<open>a || b\<close> on values.\<close>

definition js_or :: "jsval \<Rightarrow> jsval \<Rightarrow> jsval" where
  "js_or a b = (if truthy a then a else b)"

subsection \<open>Decimal numerals and array indices\<close>

definition digit_char :: "nat \<Rightarrow> char" where
  "digit_char d = ''0123456789'' ! d"

fun show_nat :: "nat \<Rightarrow> string" where
  "show_nat n = (if n < 10 then [digit_char n] else show_nat (n div 10) @ [digit_char (n mod 10)])"

declare show_nat.simps [simp del]

definition show_int :: "int \<Rightarrow> string" where
  "show_int i = (if i < 0 then CHR ''-'' # show_nat (nat (- i)) else show_nat (nat i))"

definition is_digit :: "char \<Rightarrow> bool" where
  "is_digit c = (c \<in> set ''0123456789'')"

definition read_int :: "string \<Rightarrow> int" where
  "read_int s = foldl (\<lambda>n c. 10 * n + (of_char c - 48)) 0 s"

text \<open>
  A property key is an array index when it is the canonical decimal numeral of an integer
  below \<open>2\<^sup>3\<^sup>2 - 1\<close>. Such keys are enumerated first, in ascending numeric order; all other
  keys follow in insertion order.
\<close>

definition index_of :: "string \<Rightarrow> nat option" where
  "index_of k =
     (if k = [] \<or> \<not> list_all is_digit k then None
      else if show_int (read_int k) = k \<and> read_int k < 4294967295
           then Some (nat (read_int k)) else None)"

subsection \<open>Objects\<close>

fun replace_prop :: "string \<Rightarrow> 'v \<Rightarrow> (string \<times> 'v) list \<Rightarrow> (string \<times> 'v) list" where
  "replace_prop k v [] = []"
| "replace_prop k v ((k', v') # kvs) =
     (if k' = k then (k, v) # kvs else (k', v') # replace_prop k v kvs)"

fun insert_index :: "nat \<Rightarrow> string \<Rightarrow> 'v \<Rightarrow> (string \<times> 'v) list \<Rightarrow> (string \<times> 'v) list" where
  "insert_index n k v [] = [(k, v)]"
| "insert_index n k v ((k', v') # kvs) =
     (case index_of k' of
        Some m \<Rightarrow> if m < n then (k', v') # insert_index n k v kvs else (k, v) # (k', v') # kvs
      | None \<Rightarrow> (k, v) # (k', v') # kvs)"

text \<open>
  Defining or assigning property \<open>k\<close>: an existing property keeps its place and takes the
  new value; a new one is placed where \<^verbatim>\<open>Object.entries\<close> will report it. The operations
  on property lists do not look at the values, whose type is left open.
\<close>

definition obj_put :: "string \<Rightarrow> 'v \<Rightarrow> (string \<times> 'v) list \<Rightarrow> (string \<times> 'v) list" where
  "obj_put k v kvs =
     (if k \<in> set (map fst kvs) then replace_prop k v kvs
      else case index_of k of
             Some n \<Rightarrow> insert_index n k v kvs
           | None \<Rightarrow> kvs @ [(k, v)])"

fun indexed_from :: "nat \<Rightarrow> 'v list \<Rightarrow> (string \<times> 'v) list" where
  "indexed_from i [] = []"
| "indexed_from i (x # xs) = (show_nat i, x) # indexed_from (Suc i) xs"

text \<open>
  The own enumerable properties that \<^verbatim>\<open>Object.entries(v)\<close> and the spread \<^verbatim>\<open>{...v}\<close>
  enumerate: those of an object, the elements of an array, the characters of a string.
\<close>

fun own_props :: "jsval \<Rightarrow> props" where
  "own_props (JObj kvs) = kvs"
| "own_props (JArr xs) = indexed_from 0 xs"
| "own_props (JStr s) = indexed_from 0 (map (\<lambda>c. JStr [c]) s)"
| "own_props v = []"

text \<open>\<^verbatim>\<open>Object.entries(v)\<close> throws on \<^verbatim>\<open>undefined\<close> and \<^verbatim>\<open>null\<close>.\<close>

definition object_entries :: "jsval \<Rightarrow> error + props" where
  "object_entries v = (if nullish v then Inl TypeError else Inr (own_props v))"

text \<open>\<^verbatim>\<open>{...acc, ...v}\<close>: the properties of \<open>v\<close> are defined one by one on top of \<open>acc\<close>.\<close>

definition spread_into :: "props \<Rightarrow> jsval \<Rightarrow> props" where
  "spread_into acc v = fold (\<lambda>(k, x). obj_put k x) (own_props v) acc"

text \<open>Reading property \<open>k\<close> of a value that is neither \<^verbatim>\<open>undefined\<close> nor \<^verbatim>\<open>null\<close>.\<close>

fun js_prop :: "jsval \<Rightarrow> string \<Rightarrow> jsval" where
  "js_prop (JObj kvs) k = (case map_of kvs k of Some v \<Rightarrow> v | None \<Rightarrow> JUndefined)"
| "js_prop (JArr xs) k =
     (if k = ''length'' then JNum (of_nat (length xs))
      else case index_of k of
             Some n \<Rightarrow> if n < length xs then xs ! n else JUndefined
           | None \<Rightarrow> JUndefined)"
| "js_prop (JStr s) k =
     (if k = ''length'' then JNum (of_nat (length s))
      else case index_of k of
             Some n \<Rightarrow> if n < length s then JStr [s ! n] else JUndefined
           | None \<Rightarrow> JUndefined)"
| "js_prop v k = JUndefined"

text \<open>\<^verbatim>\<open>v.k\<close> throws a TypeError when \<open>v\<close> is \<^verbatim>\<open>undefined\<close> or \<^verbatim>\<open>null\<close>; \<^verbatim>\<open>v?.k\<close> yields
  \<^verbatim>\<open>undefined\<close> instead.\<close>

definition get :: "jsval \<Rightarrow> string \<Rightarrow> error + jsval" where
  "get v k = (if nullish v then Inl TypeError else Inr (js_prop v k))"

definition opt_get :: "jsval \<Rightarrow> string \<Rightarrow> jsval" where
  "opt_get v k = (if nullish v then JUndefined else js_prop v k)"

subsection \<open>Inherited members\<close>

text \<open>
  A property that a value does not own is looked up in the prototype of the value. The
  built-in prototypes are objects of the host, the JavaScript engine, and not of the
  module. Like the permission oracle, the host is a parameter: \<open>host b k\<close> is what reading
  member \<open>k\<close> of the built-in object \<open>b\<close> yields, which is a primitive value, or a
  built-in object (a function such as \<^verbatim>\<open>Object.prototype.toString\<close>), given by its name, or
  an exception that an accessor throws. The embedding relies on four facts that the
  ECMAScript standard fixes for every host:

  \<^item> \<^verbatim>\<open>__proto__\<close> is an accessor of \<^verbatim>\<open>Object.prototype\<close>. Read through a value that has no
    own property of that name, it yields the prototype of the value; assigned an object
    through an object that finds no data property of that name, it makes the assigned
    object the prototype.
  \<^item> Every other member of a built-in prototype is a writable data property, so that
    assigning to its name through an object that inherits it defines an own property of
    that object.
  \<^item> Built-in objects have no enumerable own properties: spreading one copies nothing.
  \<^item> The names under which the module reads a property by name (\<^verbatim>\<open>add\<close>, \<^verbatim>\<open>remove\<close>,
    \<^verbatim>\<open>group\<close>, \<^verbatim>\<open>fields\<close>, \<^verbatim>\<open>modal\<close>, \<^verbatim>\<open>permission\<close>, ...) are not names of members of
    any built-in object. Reading such a name therefore finds an own property or
    \<^verbatim>\<open>undefined\<close>, which is what \<open>js_prop\<close> computes.
\<close>

datatype looked =
    Value jsval
  | Builtin string

type_synonym host = "string \<Rightarrow> string \<Rightarrow> error + looked"

text \<open>The own property \<open>k\<close> of a value, enumerable or not.\<close>

fun own_member :: "jsval \<Rightarrow> string \<Rightarrow> jsval option" where
  "own_member (JObj kvs) k = map_of kvs k"
| "own_member (JArr xs) k =
     (if k = ''length'' then Some (JNum (of_nat (length xs)))
      else case index_of k of
             Some n \<Rightarrow> if n < length xs then Some (xs ! n) else None
           | None \<Rightarrow> None)"
| "own_member (JStr s) k =
     (if k = ''length'' then Some (JNum (of_nat (length s)))
      else case index_of k of
             Some n \<Rightarrow> if n < length s then Some (JStr [s ! n]) else None
           | None \<Rightarrow> None)"
| "own_member v k = None"

text \<open>The built-in prototype of a value that is neither \<^verbatim>\<open>undefined\<close> nor \<^verbatim>\<open>null\<close>.\<close>

fun prototypeOf :: "jsval \<Rightarrow> string" where
  "prototypeOf (JArr xs) = ''Array.prototype''"
| "prototypeOf (JStr s) = ''String.prototype''"
| "prototypeOf (JBool b) = ''Boolean.prototype''"
| "prototypeOf (JNum n) = ''Number.prototype''"
| "prototypeOf JNaN = ''Number.prototype''"
| "prototypeOf v = ''Object.prototype''"

text \<open>\<^verbatim>\<open>v[k]\<close> for a key \<open>k\<close> computed at run time and a value \<open>v\<close> that is neither
  \<^verbatim>\<open>undefined\<close> nor \<^verbatim>\<open>null\<close>.\<close>

definition member :: "host \<Rightarrow> jsval \<Rightarrow> string \<Rightarrow> error + looked" where
  "member host v k =
     (case own_member v k of
        Some x \<Rightarrow> Inr (Value x)
      | None \<Rightarrow>
          if k = ''__proto__'' then Inr (Builtin (prototypeOf v)) else host (prototypeOf v) k)"

text \<open>\<^verbatim>\<open>r?.[k]\<close>, the own enumerable properties that \<^verbatim>\<open>{...r}\<close> copies, those that
  \<^verbatim>\<open>{...(r || v)}\<close> copies, and \<^verbatim>\<open>r?.fields\<close>, for the result \<open>r\<close> of a lookup.\<close>

definition lookedMember :: "host \<Rightarrow> looked \<Rightarrow> string \<Rightarrow> error + looked" where
  "lookedMember host r k =
     (case r of
        Value v \<Rightarrow> if nullish v then Inr (Value JUndefined) else member host v k
      | Builtin b \<Rightarrow> host b k)"

definition spreadLooked :: "looked \<Rightarrow> props" where
  "spreadLooked r = (case r of Value v \<Rightarrow> spread_into [] v | Builtin b \<Rightarrow> [])"

definition spreadOr :: "looked \<Rightarrow> jsval \<Rightarrow> props" where
  "spreadOr r v = (case r of Value x \<Rightarrow> spread_into [] (js_or x v) | Builtin b \<Rightarrow> [])"

definition lookedFields :: "looked \<Rightarrow> jsval" where
  "lookedFields r = (case r of Value v \<Rightarrow> opt_get v ''fields'' | Builtin b \<Rightarrow> JUndefined)"

subsection \<open>Strings and property keys\<close>

fun join_with :: "string \<Rightarrow> string list \<Rightarrow> string" where
  "join_with sep [] = []"
| "join_with sep [s] = s"
| "join_with sep (s # t # ss) = s @ sep @ join_with sep (t # ss)"

text \<open>
  \<^verbatim>\<open>String(v)\<close>, which is also the conversion of \<open>v\<close> to the key under which \<^verbatim>\<open>acc[v]\<close>
  stores a property. An array prints its elements separated by commas, with nothing for
  \<^verbatim>\<open>undefined\<close> and \<^verbatim>\<open>null\<close>. An object is converted by its \<^verbatim>\<open>toString\<close> method, which is
  that of \<^verbatim>\<open>Object.prototype\<close> unless the object has an own property of that name; such a
  property of an object of the model is not a function, the inherited \<^verbatim>\<open>valueOf\<close> returns
  the object itself, and the conversion throws a TypeError.
\<close>

fun to_string :: "jsval \<Rightarrow> error + string"
  and to_strings :: "jsval list \<Rightarrow> error + string list" where
  "to_string JUndefined = Inr ''undefined''"
| "to_string JNull = Inr ''null''"
| "to_string (JBool b) = Inr (if b then ''true'' else ''false'')"
| "to_string (JNum n) = Inr (show_int (sint n))"
| "to_string JNaN = Inr ''NaN''"
| "to_string (JStr s) = Inr s"
| "to_string (JArr xs) = ebind (to_strings xs) (\<lambda>ss. Inr (join_with '','' ss))"
| "to_string (JObj kvs) =
     (if ''toString'' \<in> set (map fst kvs) then Inl TypeError else Inr ''[object Object]'')"
| "to_strings [] = Inr []"
| "to_strings (x # xs) =
     ebind (if x = JUndefined \<or> x = JNull then Inr [] else to_string x) (\<lambda>s.
     ebind (to_strings xs) (\<lambda>ss. Inr (s # ss)))"

subsection \<open>Arrays\<close>

text \<open>\<^verbatim>\<open>[].concat(...args)\<close>: an array argument contributes its elements, any other
  argument contributes itself.\<close>

fun concat_args :: "jsval list \<Rightarrow> jsval list" where
  "concat_args [] = []"
| "concat_args (JArr xs # args) = xs @ concat_args args"
| "concat_args (v # args) = v # concat_args args"

text \<open>
  \<^verbatim>\<open>recv.concat(arg)\<close>. Arrays and strings have the method; on anything else the call
  throws.
\<close>

fun js_concat :: "jsval \<Rightarrow> jsval \<Rightarrow> error + jsval" where
  "js_concat (JArr xs) arg = Inr (JArr (xs @ concat_args [arg]))"
| "js_concat (JStr s) arg = ebind (to_string arg) (\<lambda>t. Inr (JStr (s @ t)))"
| "js_concat v arg = Inl TypeError"

fun is_infix :: "string \<Rightarrow> string \<Rightarrow> bool" where
  "is_infix k [] = (k = [])"
| "is_infix k (c # s) = (take (length k) (c # s) = k \<or> is_infix k s)"

text \<open>
  \<^verbatim>\<open>recv.includes(key)\<close> for a string \<open>key\<close>: membership in an array, containment in a
  string, and a TypeError on a receiver without the method.
\<close>

fun js_includes :: "jsval \<Rightarrow> string \<Rightarrow> error + bool" where
  "js_includes (JArr xs) key = Inr (JStr key \<in> set xs)"
| "js_includes (JStr s) key = Inr (is_infix key s)"
| "js_includes v key = Inl TypeError"

text \<open>\<^verbatim>\<open>Object.fromEntries(entries)\<close>: every entry must be an object; its elements
  \<open>0\<close> and \<open>1\<close> are the key and the value, so the empty entry \<^verbatim>\<open>[]\<close> defines the property
  \<^verbatim>\<open>"undefined"\<close> with the value \<^verbatim>\<open>undefined\<close>.\<close>

definition entry_put :: "props \<Rightarrow> jsval \<Rightarrow> error + props" where
  "entry_put acc e =
     (if typeof e = ''object'' \<and> e \<noteq> JNull
      then ebind (to_string (js_prop e ''0'')) (\<lambda>k. Inr (obj_put k (js_prop e ''1'') acc))
      else Inl TypeError)"

definition from_entries :: "jsval list \<Rightarrow> error + props" where
  "from_entries es = efold entry_put es []"


section \<open>The command-menu module\<close>

subsection \<open>Composition stages\<close>

text \<open>\<^verbatim>\<open>xs.map(f)\<close> on a value: only an array has the method.\<close>

definition array_map :: "(jsval \<Rightarrow> error + jsval) \<Rightarrow> jsval \<Rightarrow> error + jsval list" where
  "array_map f v = (case v of JArr xs \<Rightarrow> emap f xs | _ \<Rightarrow> Inl TypeError)"

definition composeRemove :: "jsval \<Rightarrow> error + jsval" where
  "composeRemove initialState =
     ebind (get initialState ''rawCommands'') (\<lambda>raw.
     ebind (array_map (\<lambda>command. get command ''remove'') raw) (\<lambda>removes.
       let concatenate = filter truthy (concat_args removes)
       in Inr (JObj (obj_put ''remove'' (JArr concatenate) (spread_into [] initialState)))))"

text \<open>
  The reducer of \<^verbatim>\<open>formatGroups\<close>: \<open>groups\<close> holds the properties of the accumulated
  object, and the entry is one \<^verbatim>\<open>[name, attributes]\<close> pair of a fragment's \<^verbatim>\<open>group\<close>. When
  \<open>name\<close> is not yet a key of \<open>groups\<close>, \<^verbatim>\<open>groups[name]\<close> is \<^verbatim>\<open>undefined\<close> or a member
  inherited from \<^verbatim>\<open>Object.prototype\<close>; no such member has a property \<^verbatim>\<open>fields\<close>, so that
  \<^verbatim>\<open>groups[name]?.fields\<close> is \<^verbatim>\<open>undefined\<close> in either case.
\<close>

definition mergeGroup :: "props \<Rightarrow> string \<times> jsval \<Rightarrow> error + props" where
  "mergeGroup groups = (\<lambda>(name, attributes).
     ebind (get attributes ''fields'') (\<lambda>fields.
     ebind (js_concat (js_or (opt_get (js_prop (JObj groups) name) ''fields'') (JArr [])) fields)
       (\<lambda>merged.
         Inr (obj_put name
                (JObj (obj_put ''fields'' merged (spread_into [] attributes)))
                (spread_into [] (JObj groups))))))"

definition formatGroups :: "props \<Rightarrow> jsval \<Rightarrow> error + props" where
  "formatGroups state fragment =
     ebind (get fragment ''group'') (\<lambda>group.
     ebind (object_entries group) (\<lambda>entries.
       efold mergeGroup entries state))"

definition composeGroup :: "jsval \<Rightarrow> error + jsval" where
  "composeGroup initialState =
     ebind (get initialState ''rawCommands'') (\<lambda>raw.
       case raw of
         JArr fragments \<Rightarrow>
           ebind (efold formatGroups fragments []) (\<lambda>concatenate.
             Inr (JObj (obj_put ''group'' (JObj concatenate) (spread_into [] initialState))))
       | _ \<Rightarrow> Inl TypeError)"

definition composeCommand :: "jsval \<Rightarrow> error + jsval" where
  "composeCommand initialState =
     ebind (get initialState ''rawCommands'') (\<lambda>raw.
     ebind (array_map (\<lambda>command. get command ''add'') raw) (\<lambda>adds.
       let concatenate = filter truthy (concat_args adds)
       in Inr (JObj (obj_put ''command''
                  (JObj (fold (\<lambda>command acc. spread_into (spread_into [] (JObj acc)) command)
                           concatenate []))
                  (spread_into [] initialState)))))"

text \<open>\<^verbatim>\<open>composeModal\<close> (marked \<^verbatim>\<open>TODO keep or remove\<close>): its reducer destructures every
  fragment and returns the state it was given.\<close>

definition formatModals :: "props \<Rightarrow> jsval \<Rightarrow> error + props" where
  "formatModals state fragment = ebind (get fragment ''group'') (\<lambda>group. Inr state)"

definition composeModal :: "jsval \<Rightarrow> error + jsval" where
  "composeModal initialState =
     ebind (get initialState ''rawCommands'') (\<lambda>raw.
       case raw of
         JArr fragments \<Rightarrow>
           ebind (efold formatModals fragments []) (\<lambda>concatenate.
             Inr (JObj (obj_put ''modal'' (JObj concatenate) (spread_into [] initialState))))
       | _ \<Rightarrow> Inl TypeError)"

text \<open>\<^verbatim>\<open>pipe(...functions)(initial)\<close>.\<close>

definition pipe :: "(jsval \<Rightarrow> error + jsval) list \<Rightarrow> jsval \<Rightarrow> error + jsval" where
  "pipe functions initial = efold (\<lambda>accumulator current. current accumulator) functions initial"

subsection \<open>Validation\<close>

text \<open>
  \<^verbatim>\<open>assert.equal\<close> of \<^verbatim>\<open>require('assert').strict\<close> is \<^verbatim>\<open>strictEqual\<close>; it is only applied to
  primitive operands here. Both assertions return \<^verbatim>\<open>undefined\<close> when they pass.
\<close>

definition assert_equal :: "jsval \<Rightarrow> jsval \<Rightarrow> string \<Rightarrow> error + jsval" where
  "assert_equal actual expected message =
     (if actual = expected then Inr JUndefined else Inl (AssertionError message))"

definition assert_ok :: "jsval \<Rightarrow> string \<Rightarrow> error + jsval" where
  "assert_ok v message = (if truthy v then Inr JUndefined else Inl (AssertionError message))"

text \<open>\<^verbatim>\<open>a && b\<close>: \<open>b\<close> is evaluated only when \<open>a\<close> has returned a truthy value.\<close>

definition js_and :: "error + jsval \<Rightarrow> error + jsval \<Rightarrow> error + jsval" where
  "js_and a b = ebind a (\<lambda>v. if truthy v then b else Inr v)"

text \<open>
  \<^verbatim>\<open>validateCommand({ name, command })\<close>. Once \<^verbatim>\<open>command.type\<close> has been read, \<open>command\<close>
  is neither \<^verbatim>\<open>undefined\<close> nor \<^verbatim>\<open>null\<close>, and the later reads of its properties cannot throw.
\<close>

definition validateCommand :: "string \<Rightarrow> jsval \<Rightarrow> error + bool" where
  \<open>validateCommand name command =
     ebind (get command ''type'') (\<lambda>ty.
     ebind (assert_equal ty (JStr ''item'')
              (''Invalid command type, must be "item", for '' @ name)) (\<lambda>_.
     ebind (assert_equal (JStr (typeof (js_prop command ''label''))) (JStr ''string'')
              (''Invalid command label, must be a string, for '' @ name @ '' "''
                 @ typeof (js_prop command ''label'') @ ''" provided'')) (\<lambda>_.
     ebind (js_and
              (js_and
                 (assert_equal (JStr (typeof (js_prop command ''action''))) (JStr ''object'')
                    (''Invalid command action, must be an object for '' @ name))
                 (ebind (get (js_prop command ''action'') ''type'') (\<lambda>t.
                    assert_equal (JStr (typeof t)) (JStr ''string'')
                      (''Invalid command action type for '' @ name))))
              (ebind (get (js_prop command ''action'') ''payload'') (\<lambda>p.
                 assert_equal (JStr (typeof p)) (JStr ''object'')
                   (''Invalid command action payload for '' @ name)))) (\<lambda>_.
     ebind (js_and (Inr (js_prop command ''permission''))
              (js_and
                 (js_and
                    (assert_equal (JStr (typeof (js_prop command ''permission''))) (JStr ''object'')
                       (''Invalid command permission for '' @ name))
                    (ebind (get (js_prop command ''permission'') ''action'') (\<lambda>a.
                       assert_equal (JStr (typeof a)) (JStr ''string'')
                         (''Invalid command permission action for '' @ name))))
                 (ebind (get (js_prop command ''permission'') ''type'') (\<lambda>t.
                    assert_equal (JStr (typeof t)) (JStr ''string'')
                      (''Invalid command permission type for '' @ name))))) (\<lambda>_.
     ebind (js_and (Inr (js_prop command ''modal''))
              (assert_equal (JStr (typeof (js_prop command ''modal''))) (JStr ''string'')
                 (''Invalid command modal for '' @ name))) (\<lambda>_.
     ebind (assert_equal (JStr (typeof (js_prop command ''shortcut''))) (JStr ''string'')
              (''Invalid command shortcut, must be a string, for '' @ name)) (\<lambda>_.
       Inr True)))))))\<close>

text \<open>\<^verbatim>\<open>validateGroup({ name, group })\<close>; \<^verbatim>\<open>every\<close> is a method of arrays only.\<close>

definition validateGroup :: "string \<Rightarrow> jsval \<Rightarrow> error + bool" where
  "validateGroup = (\<lambda>name group.
     ebind (get group ''label'') (\<lambda>label.
     ebind (assert_equal (JStr (typeof label)) (JStr ''string'')
              (''Invalid group label, must be a string, for '' @ name)) (\<lambda>_.
     ebind (assert_equal (JBool (case js_prop group ''fields'' of JArr fs \<Rightarrow> True | _ \<Rightarrow> False))
              (JBool True)
              (''Invalid command fields, must be an array for '' @ name)) (\<lambda>_.
     ebind (case js_prop group ''fields'' of
              JArr fs \<Rightarrow>
                assert_ok (JBool (list_all (\<lambda>field. typeof field = ''string'') fs))
                  (''Invalid command fields, must contains strings, for '' @ name)
            | _ \<Rightarrow> Inl TypeError) (\<lambda>_.
       Inr True)))))"

text \<open>\<^verbatim>\<open>entries.some(callback)\<close>: the traversal ends at the first entry for which the
  callback returns true.\<close>

fun array_some :: "('a \<Rightarrow> error + bool) \<Rightarrow> 'a list \<Rightarrow> error + bool" where
  "array_some callback [] = Inr False"
| "array_some callback (x # xs) =
     ebind (callback x) (\<lambda>found. if found then Inr True else array_some callback xs)"

subsection \<open>The \<^verbatim>\<open>apostrophe:ready\<close> handler\<close>

text \<open>
  The fields the module keeps on \<^verbatim>\<open>self\<close> (initialised in \<^verbatim>\<open>init\<close>), and
  \<^verbatim>\<open>self.options.components\<close>.
\<close>

record command_menu =
  rawCommands :: jsval
  removes :: jsval
  commands :: jsval
  groups :: jsval
  modals :: jsval
  components :: jsval

text \<open>A request; the module itself reads only \<^verbatim>\<open>req.user\<close>.\<close>

record req =
  user :: jsval

text \<open>The permission oracle \<^verbatim>\<open>self.apos.permissions.can(req, action, type, mode)\<close>.\<close>

type_synonym can = "req \<Rightarrow> jsval \<Rightarrow> jsval \<Rightarrow> jsval \<Rightarrow> bool"

text \<open>
  How a run of \<^verbatim>\<open>composeCommands\<close> ends: the composed tables were assigned to \<^verbatim>\<open>self\<close>;
  or the \<^verbatim>\<open>catch\<close> clause logged an exception of the \<^verbatim>\<open>try\<close> block; or an exception
  left the handler, which is what an exception of the pipeline does, since the pipeline
  runs before the \<^verbatim>\<open>try\<close>.
\<close>

datatype outcome =
    Published
  | Logged error
  | Thrown error

text \<open>
  The argument \<open>fragments\<close> is the array that
  \<^verbatim>\<open>Object.values(self.apos.modules).flatMap(self.composeCommandsForModule)\<close> has returned.
\<close>

text \<open>The two validation statements that open the \<^verbatim>\<open>try\<close> block.\<close>

definition validateComposed :: "jsval \<Rightarrow> error + bool" where
  "validateComposed composed =
     ebind (get composed ''command'') (\<lambda>command.
     ebind (object_entries command) (\<lambda>cs.
     ebind (array_some (case_prod validateCommand) cs) (\<lambda>_.
     ebind (get composed ''group'') (\<lambda>group.
     ebind (object_entries group) (\<lambda>gs.
       array_some (case_prod validateGroup) gs)))))"

definition composeCommands :: "jsval list \<Rightarrow> command_menu \<Rightarrow> outcome \<times> command_menu" where
  "composeCommands fragments self =
     (let cleared = self\<lparr>rawCommands := JArr fragments, removes := JArr [], commands := JObj [],
                          groups := JObj [], modals := JObj []\<rparr>
      in case pipe [composeCommand, composeRemove, composeGroup]
                (JObj [(''rawCommands'', rawCommands cleared)]) of
           Inl e \<Rightarrow> (Thrown e, cleared)
         | Inr composed \<Rightarrow>
             (case validateComposed composed of
                Inl e \<Rightarrow> (Logged e, cleared)
              | Inr _ \<Rightarrow>
                  (Published,
                   cleared\<lparr>removes := js_prop composed ''remove'',
                            commands := js_prop composed ''command'',
                            groups := js_prop composed ''group'',
                            modals := js_prop composed ''modal''\<rparr>)))"

subsection \<open>Visibility\<close>

definition isCommandVisible :: "can \<Rightarrow> req \<Rightarrow> jsval \<Rightarrow> error + bool" where
  "isCommandVisible can req command =
     ebind (get command ''permission'') (\<lambda>permission.
       if truthy permission
       then Inr (can req (js_prop permission ''action'') (js_prop permission ''type'')
                   (js_or (js_prop permission ''mode'') (JStr ''draft'')))
       else Inr True)"

text \<open>
  The reduction of \<^verbatim>\<open>group.fields\<close> in \<^verbatim>\<open>getVisibleGroups\<close>. \<^verbatim>\<open>keys.includes(field)\<close>
  compares with the strings in \<open>keys\<close>, so a field that is not a string is never included.
  \<open>visible\<close> holds the properties of the object \<^verbatim>\<open>commands\<close> of visible commands.
\<close>

definition visibleFields :: "props \<Rightarrow> jsval \<Rightarrow> error + props" where
  "visibleFields visible groupFields =
     (case groupFields of
        JArr fs \<Rightarrow>
          Inr (fold (\<lambda>field acc.
                  case field of
                    JStr name \<Rightarrow>
                      if name \<in> set (map fst visible)
                      then obj_put name (js_prop (JObj visible) name) (spread_into [] (JObj acc))
                      else acc
                  | _ \<Rightarrow> acc) fs [])
      | _ \<Rightarrow> Inl TypeError)"

definition visibleGroup :: "props \<Rightarrow> string \<times> jsval \<Rightarrow> error + jsval" where
  "visibleGroup visible = case_prod (\<lambda>key group.
     ebind (get group ''fields'') (\<lambda>groupFields.
     ebind (visibleFields visible groupFields) (\<lambda>fields.
       Inr (if length fields \<noteq> 0
            then JArr [JStr key, JObj (obj_put ''fields'' (JObj fields) (spread_into [] group))]
            else JArr []))))"

definition getVisibleGroups :: "command_menu \<Rightarrow> props \<Rightarrow> error + props" where
  "getVisibleGroups self visible =
     ebind (object_entries (groups self)) (\<lambda>gs.
     ebind (emap (visibleGroup visible) gs) (\<lambda>entries.
       from_entries (filter (\<lambda>entry. truthy (js_prop entry ''length'')) entries)))"

text \<open>
  The accumulator \<^verbatim>\<open>acc\<close> of the modal view starts as \<^verbatim>\<open>{}\<close>. It is given by its own
  properties and by the object that has been made its prototype, if an assignment to
  \<^verbatim>\<open>acc['__proto__']\<close> has replaced \<^verbatim>\<open>Object.prototype\<close>. That object is an object literal:
  it is given by its properties, and its own prototype is \<^verbatim>\<open>Object.prototype\<close>.

  \<open>accMember\<close> is the read \<^verbatim>\<open>acc[k]\<close>: an own property, else a property of the prototype,
  else a member of \<^verbatim>\<open>Object.prototype\<close>. \<open>accAssign\<close> is the assignment
  \<^verbatim>\<open>acc[k] = { ... }\<close>: it reaches the setter of \<^verbatim>\<open>__proto__\<close> when neither \<^verbatim>\<open>acc\<close> nor
  its prototype has a data property of that name.
\<close>

definition accMember :: "host \<Rightarrow> props \<times> props option \<Rightarrow> string \<Rightarrow> error + looked" where
  "accMember host acc k =
     (case acc of
        (own, None) \<Rightarrow> member host (JObj own) k
      | (own, Some p) \<Rightarrow>
          (case map_of own k of
             Some x \<Rightarrow> Inr (Value x)
           | None \<Rightarrow>
               (case map_of p k of
                  Some x \<Rightarrow> Inr (Value x)
                | None \<Rightarrow>
                    if k = ''__proto__'' then Inr (Value (JObj p))
                    else host ''Object.prototype'' k)))"

definition accAssign :: "props \<times> props option \<Rightarrow> string \<Rightarrow> props \<Rightarrow> props \<times> props option" where
  "accAssign acc k entry =
     (case acc of
        (own, proto) \<Rightarrow>
          if k = ''__proto__'' \<and> map_of own k = None \<and>
             (case proto of None \<Rightarrow> True | Some p \<Rightarrow> map_of p k = None)
          then (own, Some entry)
          else (obj_put k (JObj entry) own, proto))"

text \<open>
  The body of the \<^verbatim>\<open>forEach\<close> in \<^verbatim>\<open>getVisibleModals\<close>, for the entry \<^verbatim>\<open>[name, field]\<close> of
  the fields of group \<open>key\<close>. \<open>current\<close> is \<^verbatim>\<open>acc[modal]\<close> and \<open>currentGroup\<close> is
  \<^verbatim>\<open>acc[modal]?.[key]\<close>; the statement reads both more than once, with the same result.
\<close>

definition modalStep ::
  "host \<Rightarrow> string \<Rightarrow> jsval \<Rightarrow> props \<times> props option \<Rightarrow> string \<times> jsval \<Rightarrow> error + props \<times> props option" where
  "modalStep host key grp acc = (\<lambda>(name, field).
     ebind (get field ''modal'') (\<lambda>m.
     ebind (to_string (js_or m JNull)) (\<lambda>modal.
     ebind (accMember host acc modal) (\<lambda>current.
     ebind (lookedMember host current key) (\<lambda>currentGroup.
       let fields = obj_put name field (spread_into [] (lookedFields currentGroup));
           copy = obj_put ''fields'' (JObj fields) (spreadOr currentGroup grp);
           entry = obj_put key (JObj copy) (spreadLooked current)
       in Inr (accAssign acc modal entry))))))"

definition modalGroup ::
  "host \<Rightarrow> props \<times> props option \<Rightarrow> string \<times> jsval \<Rightarrow> error + props \<times> props option" where
  "modalGroup host acc = case_prod (\<lambda>key group.
     ebind (get group ''fields'') (\<lambda>groupFields.
     ebind (object_entries groupFields) (\<lambda>entries.
       efold (modalStep host key group) entries acc)))"

text \<open>
  \<^verbatim>\<open>getVisibleModals\<close> first computes its \<^verbatim>\<open>groups\<close> with the very expression that is the body
  of \<^verbatim>\<open>getVisibleGroups\<close>. It returns the accumulator.
\<close>

definition getVisibleModals :: "host \<Rightarrow> command_menu \<Rightarrow> props \<Rightarrow> error + props \<times> props option" where
  "getVisibleModals host self visible =
     ebind (getVisibleGroups self visible) (\<lambda>filtered. efold (modalGroup host) filtered ([], None))"

definition visibleEntry :: "can \<Rightarrow> command_menu \<Rightarrow> req \<Rightarrow> string \<times> jsval \<Rightarrow> error + jsval" where
  "visibleEntry can self req = (\<lambda>(key, command).
     ebind (js_includes (removes self) key) (\<lambda>removed.
       if removed then Inr (JArr [])
       else ebind (isCommandVisible can req command) (\<lambda>visible.
              Inr (if visible then JArr [JStr key, command] else JArr []))))"

definition visibleCommands :: "can \<Rightarrow> command_menu \<Rightarrow> req \<Rightarrow> error + props" where
  "visibleCommands can self req =
     ebind (object_entries (commands self)) (\<lambda>cs.
     ebind (emap (visibleEntry can self req) cs) from_entries)"

text \<open>
  The result of \<^verbatim>\<open>getVisible\<close> is the object \<^verbatim>\<open>{ groups, modals }\<close>, together with the
  prototype of its \<^verbatim>\<open>modals\<close> object when that is no longer \<^verbatim>\<open>Object.prototype\<close>.
\<close>

definition getVisible :: "host \<Rightarrow> can \<Rightarrow> command_menu \<Rightarrow> req \<Rightarrow> error + jsval \<times> jsval option" where
  "getVisible host can self req =
     ebind (visibleCommands can self req) (\<lambda>visible.
     ebind (getVisibleGroups self visible) (\<lambda>visibleGroups.
     ebind (getVisibleModals host self visible) (\<lambda>(visibleModals, prototype).
       Inr (JObj [(''groups'', JObj visibleGroups), (''modals'', JObj visibleModals)],
            map_option JObj prototype))))"

text \<open>
  \<^verbatim>\<open>getBrowserData\<close> hands on the \<^verbatim>\<open>modals\<close> object of the view, and so its prototype; the
  value \<^verbatim>\<open>false\<close> has none.
\<close>

definition getBrowserData :: "host \<Rightarrow> can \<Rightarrow> command_menu \<Rightarrow> req \<Rightarrow> error + jsval \<times> jsval option" where
  "getBrowserData host can self req =
     (if \<not> truthy (user req) then Inr (JBool False, None)
      else ebind (getVisible host can self req) (\<lambda>(visible, prototype).
           ebind (get (components self) ''the'') (\<lambda>the_component.
             Inr (JObj [(''components'',
                         JObj [(''the'', js_or the_component (JStr ''TheAposCommandMenu''))]),
                        (''groups'', js_prop visible ''groups''),
                        (''modals'', js_prop visible ''modals'')],
                  prototype))))"

section \<open>Visibility resolution over an explicit store\<close>

text \<open>
  Whether \<^verbatim>\<open>getVisible\<close> changes the objects it is given is a question about object
  identity, which values alone cannot express. Here the resolver is written once more
  over a store: objects and arrays live in cells, a value is a primitive or the address of
  a cell, an object literal allocates a cell, and the assignment \<^verbatim>\<open>acc[modal] = ...\<close>
  overwrites one, unless it replaces the prototype of \<^verbatim>\<open>acc\<close>. The arrays that \<^verbatim>\<open>Object.entries\<close>, \<^verbatim>\<open>Object.keys\<close>, \<^verbatim>\<open>map\<close> and
  \<^verbatim>\<open>filter\<close> return, and the entry pairs handed to \<^verbatim>\<open>Object.fromEntries\<close>, are consumed where
  they are produced; they are lists of the model and not cells.

  \<open>HPrim j\<close> is a value without identity, in the first place a primitive; where \<open>j\<close> is
  structured it is read like the object it describes.
\<close>

datatype hval = HPrim jsval | HRef nat

datatype cell = CObj "(string \<times> hval) list" | CArr "hval list"

type_synonym heap = "cell list"

text \<open>A computation takes the store and returns a result or an exception, and the store.\<close>

type_synonym 'a hm = "heap \<Rightarrow> (error + 'a) \<times> heap"

definition hreturn :: "'a \<Rightarrow> 'a hm" where
  "hreturn x = (\<lambda>h. (Inr x, h))"

definition hbind :: "'a hm \<Rightarrow> ('a \<Rightarrow> 'b hm) \<Rightarrow> 'b hm" where
  "hbind m f = (\<lambda>h. case m h of (Inl e, h') \<Rightarrow> (Inl e, h') | (Inr x, h') \<Rightarrow> f x h')"

definition hread :: "(heap \<Rightarrow> 'a) \<Rightarrow> 'a hm" where
  "hread f = (\<lambda>h. (Inr (f h), h))"

text \<open>A read that may throw.\<close>

definition htry :: "(heap \<Rightarrow> error + 'a) \<Rightarrow> 'a hm" where
  "htry f = (\<lambda>h. (f h, h))"

fun hmapM :: "('a \<Rightarrow> 'b hm) \<Rightarrow> 'a list \<Rightarrow> 'b list hm" where
  "hmapM f [] = hreturn []"
| "hmapM f (x # xs) = hbind (f x) (\<lambda>y. hbind (hmapM f xs) (\<lambda>ys. hreturn (y # ys)))"

fun hfoldM :: "('b \<Rightarrow> 'a \<Rightarrow> 'b hm) \<Rightarrow> 'a list \<Rightarrow> 'b \<Rightarrow> 'b hm" where
  "hfoldM f [] acc = hreturn acc"
| "hfoldM f (x # xs) acc = hbind (f acc x) (hfoldM f xs)"

text \<open>An object literal: a new cell at the next free address.\<close>

definition hnew :: "(string \<times> hval) list \<Rightarrow> hval hm" where
  "hnew kvs = (\<lambda>h. (Inr (HRef (length h)), h @ [CObj kvs]))"

text \<open>\<^verbatim>\<open>target[k] = v\<close>, the one statement of the resolver that writes to an existing
  object. Assigning to a property of \<^verbatim>\<open>undefined\<close> or \<^verbatim>\<open>null\<close> throws; on another
  primitive the assignment has no effect. The resolver assigns to its accumulator
  only, an object it has just created, so the branch for an array target is never
  taken and leaves the store as it is.\<close>

definition hassign :: "hval \<Rightarrow> string \<Rightarrow> hval \<Rightarrow> hval hm" where
  "hassign target k v = (\<lambda>h.
     case target of
       HPrim j \<Rightarrow> if nullish j then (Inl TypeError, h) else (Inr v, h)
     | HRef a \<Rightarrow>
         if a < length h
         then (case h ! a of
                 CObj kvs \<Rightarrow> (Inr v, h[a := CObj (obj_put k v kvs)])
               | CArr xs \<Rightarrow> (Inr v, h))
         else (Inr v, h))"

definition htruthy :: "hval \<Rightarrow> bool" where
  "htruthy v = (case v of HPrim j \<Rightarrow> truthy j | HRef a \<Rightarrow> True)"

definition hnullish :: "hval \<Rightarrow> bool" where
  "hnullish v = (case v of HPrim j \<Rightarrow> nullish j | HRef a \<Rightarrow> False)"

definition hor :: "hval \<Rightarrow> hval \<Rightarrow> hval" where
  "hor a b = (if htruthy a then a else b)"

text \<open>The own enumerable properties of a value in store \<open>h\<close>.\<close>

definition hprops :: "heap \<Rightarrow> hval \<Rightarrow> (string \<times> hval) list" where
  "hprops h v =
     (case v of
        HPrim j \<Rightarrow> map (\<lambda>(k, x). (k, HPrim x)) (own_props j)
      | HRef a \<Rightarrow>
          if a < length h
          then (case h ! a of CObj kvs \<Rightarrow> kvs | CArr xs \<Rightarrow> indexed_from 0 xs)
          else [])"

text \<open>Reading property \<open>k\<close> of a value that is neither \<^verbatim>\<open>undefined\<close> nor \<^verbatim>\<open>null\<close>.\<close>

definition hprop :: "heap \<Rightarrow> hval \<Rightarrow> string \<Rightarrow> hval" where
  "hprop h v k =
     (case v of
        HPrim j \<Rightarrow> HPrim (js_prop j k)
      | HRef a \<Rightarrow>
          if a < length h
          then (case h ! a of
                  CObj kvs \<Rightarrow> (case map_of kvs k of Some x \<Rightarrow> x | None \<Rightarrow> HPrim JUndefined)
                | CArr xs \<Rightarrow>
                    if k = ''length'' then HPrim (JNum (of_nat (length xs)))
                    else (case index_of k of
                            Some n \<Rightarrow> if n < length xs then xs ! n else HPrim JUndefined
                          | None \<Rightarrow> HPrim JUndefined))
          else HPrim JUndefined)"

definition hopt_get :: "heap \<Rightarrow> hval \<Rightarrow> string \<Rightarrow> hval" where
  "hopt_get h v k = (if hnullish v then HPrim JUndefined else hprop h v k)"

definition hget :: "hval \<Rightarrow> string \<Rightarrow> hval hm" where
  "hget v k = (\<lambda>h. if hnullish v then (Inl TypeError, h) else (Inr (hprop h v k), h))"

definition hentries :: "hval \<Rightarrow> (string \<times> hval) list hm" where
  "hentries v = (\<lambda>h. if hnullish v then (Inl TypeError, h) else (Inr (hprops h v), h))"

text \<open>\<^verbatim>\<open>{...v}\<close>: the properties of \<open>v\<close>, defined one by one on an empty object.\<close>

definition hspread :: "hval \<Rightarrow> (string \<times> hval) list hm" where
  "hspread v = hread (\<lambda>h. fold (\<lambda>(k, x). obj_put k x) (hprops h v) [])"

text \<open>
  \<^verbatim>\<open>String(v)\<close> in store \<open>h\<close>. An array prints its elements; an array that is an element
  of itself, directly or through other arrays, prints as the empty string there:
  \<open>joining\<close> lists the arrays that are being printed.
\<close>

function hstring :: "heap \<Rightarrow> nat list \<Rightarrow> hval \<Rightarrow> error + string"
  and hstrings :: "heap \<Rightarrow> nat list \<Rightarrow> hval list \<Rightarrow> error + string list" where
  "hstring h joining (HPrim j) = to_string j"
| "hstring h joining (HRef a) =
     (if a < length h
      then (case h ! a of
              CObj kvs \<Rightarrow>
                if ''toString'' \<in> set (map fst kvs) then Inl TypeError
                else Inr ''[object Object]''
            | CArr xs \<Rightarrow>
                if a \<in> set joining then Inr []
                else ebind (hstrings h (a # joining) xs) (\<lambda>ss. Inr (join_with '','' ss)))
      else Inr ''[object Object]'')"
| "hstrings h joining [] = Inr []"
| "hstrings h joining (x # xs) =
     ebind (if hnullish x then Inr [] else hstring h joining x) (\<lambda>s.
     ebind (hstrings h joining xs) (\<lambda>ss. Inr (s # ss)))"
  by pat_completeness auto
termination
proof (relation "measures
        [\<lambda>x. case x of
                Inl (h, joining, v) \<Rightarrow> card ({..<length h} - set joining)
              | Inr (h, joining, xs) \<Rightarrow> card ({..<length h} - set joining),
         \<lambda>x. case x of Inl (h, joining, v) \<Rightarrow> 0 | Inr (h, joining, xs) \<Rightarrow> Suc (length xs)]",
    goal_cases)
  case (2 h joining a xs)
  then have "0 < card ({..<length h} - set joining)"
    by (auto simp: card_gt_0_iff)
  with 2 show ?case by simp
qed simp_all

text \<open>
  Lookups in the store. \<open>hown\<close> is the own property \<open>k\<close> of a value, \<open>hprototypeOf\<close> its
  built-in prototype, \<open>hmember\<close> the read \<^verbatim>\<open>v[k]\<close> for a computed key; the result of a
  lookup is a value of the store or a built-in object of the host.
\<close>

datatype hlooked =
    HValue hval
  | HBuiltin string

definition hlook :: "looked \<Rightarrow> hlooked" where
  "hlook r = (case r of Value j \<Rightarrow> HValue (HPrim j) | Builtin b \<Rightarrow> HBuiltin b)"

definition hown :: "heap \<Rightarrow> hval \<Rightarrow> string \<Rightarrow> hval option" where
  "hown h v k =
     (case v of
        HPrim j \<Rightarrow> map_option HPrim (own_member j k)
      | HRef a \<Rightarrow>
          if a < length h
          then (case h ! a of
                  CObj kvs \<Rightarrow> map_of kvs k
                | CArr xs \<Rightarrow>
                    if k = ''length'' then Some (HPrim (JNum (of_nat (length xs))))
                    else (case index_of k of
                            Some n \<Rightarrow> if n < length xs then Some (xs ! n) else None
                          | None \<Rightarrow> None))
          else None)"

definition hprototypeOf :: "heap \<Rightarrow> hval \<Rightarrow> string" where
  "hprototypeOf h v =
     (case v of
        HPrim j \<Rightarrow> prototypeOf j
      | HRef a \<Rightarrow>
          if a < length h
          then (case h ! a of CObj kvs \<Rightarrow> ''Object.prototype'' | CArr xs \<Rightarrow> ''Array.prototype'')
          else ''Object.prototype'')"

definition hmember :: "host \<Rightarrow> heap \<Rightarrow> hval \<Rightarrow> string \<Rightarrow> error + hlooked" where
  "hmember host h v k =
     (case hown h v k of
        Some x \<Rightarrow> Inr (HValue x)
      | None \<Rightarrow>
          if k = ''__proto__'' then Inr (HBuiltin (hprototypeOf h v))
          else map_sum id hlook (host (hprototypeOf h v) k))"

definition hlookedMember :: "host \<Rightarrow> heap \<Rightarrow> hlooked \<Rightarrow> string \<Rightarrow> error + hlooked" where
  "hlookedMember host h r k =
     (case r of
        HValue v \<Rightarrow> if hnullish v then Inr (HValue (HPrim JUndefined)) else hmember host h v k
      | HBuiltin b \<Rightarrow> map_sum id hlook (host b k))"

definition hspreadLooked :: "hlooked \<Rightarrow> (string \<times> hval) list hm" where
  "hspreadLooked r = (case r of HValue v \<Rightarrow> hspread v | HBuiltin b \<Rightarrow> hreturn [])"

definition hspreadOr :: "hlooked \<Rightarrow> hval \<Rightarrow> (string \<times> hval) list hm" where
  "hspreadOr r v = (case r of HValue x \<Rightarrow> hspread (hor x v) | HBuiltin b \<Rightarrow> hreturn [])"

definition hlookedFields :: "heap \<Rightarrow> hlooked \<Rightarrow> hval" where
  "hlookedFields h r =
     (case r of HValue v \<Rightarrow> hopt_get h v ''fields'' | HBuiltin b \<Rightarrow> HPrim JUndefined)"

text \<open>
  The accumulator of the modal view is an object of the store; next to its address the
  resolver carries the object that has been made its prototype, if any. \<open>haccMember\<close>
  is the read \<^verbatim>\<open>acc[k]\<close>. \<open>haccAssign\<close> is the assignment \<^verbatim>\<open>acc[k] = entry\<close>: it reaches the
  setter of \<^verbatim>\<open>__proto__\<close> when \<^verbatim>\<open>acc\<close> is an object and neither it nor its prototype has
  a data property of that name, and writes to the cell of \<^verbatim>\<open>acc\<close> otherwise.
\<close>

definition haccMember :: "host \<Rightarrow> heap \<Rightarrow> hval \<times> hval option \<Rightarrow> string \<Rightarrow> error + hlooked" where
  "haccMember host h acc k =
     (case acc of
        (target, None) \<Rightarrow> hmember host h target k
      | (target, Some p) \<Rightarrow>
          (case hown h target k of
             Some x \<Rightarrow> Inr (HValue x)
           | None \<Rightarrow>
               (case hown h p k of
                  Some x \<Rightarrow> Inr (HValue x)
                | None \<Rightarrow>
                    if k = ''__proto__'' then Inr (HValue p)
                    else map_sum id hlook (host (hprototypeOf h p) k))))"

definition haccAssign :: "hval \<times> hval option \<Rightarrow> string \<Rightarrow> hval \<Rightarrow> (hval \<times> hval option) hm" where
  "haccAssign acc k entry =
     (case acc of
        (target, proto) \<Rightarrow>
          hbind (hread (\<lambda>h. k = ''__proto__'' \<and> (case target of HPrim j \<Rightarrow> False | HRef a \<Rightarrow> True) \<and>
                           hown h target k = None \<and>
                           (case proto of None \<Rightarrow> True | Some p \<Rightarrow> hown h p k = None)))
            (\<lambda>setter.
               if setter then hreturn (target, Some entry)
               else hbind (hassign target k entry) (\<lambda>_. hreturn (target, proto))))"

text \<open>\<^verbatim>\<open>recv.includes(key)\<close> for a string \<open>key\<close>.\<close>

definition hincludes :: "hval \<Rightarrow> string \<Rightarrow> bool hm" where
  "hincludes recv key = (\<lambda>h.
     case recv of
       HPrim j \<Rightarrow> (case js_includes j key of Inl e \<Rightarrow> (Inl e, h) | Inr b \<Rightarrow> (Inr b, h))
     | HRef a \<Rightarrow>
         if a < length h
         then (case h ! a of
                 CArr xs \<Rightarrow> (Inr (HPrim (JStr key) \<in> set xs), h)
               | CObj kvs \<Rightarrow> (Inl TypeError, h))
         else (Inl TypeError, h))"

text \<open>The elements of \<open>v\<close> for \<^verbatim>\<open>v.reduce(...)\<close>, a method of arrays only.\<close>

definition helements :: "hval \<Rightarrow> hval list hm" where
  "helements v = (\<lambda>h.
     case v of
       HPrim j \<Rightarrow> (case j of JArr xs \<Rightarrow> (Inr (map HPrim xs), h) | _ \<Rightarrow> (Inl TypeError, h))
     | HRef a \<Rightarrow>
         if a < length h
         then (case h ! a of CArr xs \<Rightarrow> (Inr xs, h) | CObj kvs \<Rightarrow> (Inl TypeError, h))
         else (Inl TypeError, h))"

text \<open>The module state that resolution reads: references to the removal array, the
  command table and the group table.\<close>

record hmenu =
  removesRef :: hval
  commandsRef :: hval
  groupsRef :: hval

type_synonym hcan = "req \<Rightarrow> hval \<Rightarrow> hval \<Rightarrow> hval \<Rightarrow> bool"

definition isCommandVisibleH :: "hcan \<Rightarrow> req \<Rightarrow> hval \<Rightarrow> bool hm" where
  "isCommandVisibleH can req command =
     hbind (hget command ''permission'') (\<lambda>permission.
       if htruthy permission
       then hbind (hget permission ''action'') (\<lambda>action.
            hbind (hget permission ''type'') (\<lambda>type.
            hbind (hget permission ''mode'') (\<lambda>mode.
              hreturn (can req action type (hor mode (HPrim (JStr ''draft'')))))))
       else hreturn True)"

definition visibleEntryH :: "hcan \<Rightarrow> hmenu \<Rightarrow> req \<Rightarrow> string \<times> hval \<Rightarrow> (string \<times> hval) option hm" where
  "visibleEntryH can self req = (\<lambda>(key, command).
     hbind (hincludes (removesRef self) key) (\<lambda>removed.
       if removed then hreturn None
       else hbind (isCommandVisibleH can req command) (\<lambda>visible.
              hreturn (if visible then Some (key, command) else None))))"

text \<open>\<^verbatim>\<open>Object.fromEntries\<close> on entry pairs, where \<open>None\<close> is the empty entry \<^verbatim>\<open>[]\<close>.\<close>

definition entries_object :: "(string \<times> hval) option list \<Rightarrow> (string \<times> hval) list" where
  "entries_object es =
     fold (\<lambda>e acc. case e of
                      Some (k, v) \<Rightarrow> obj_put k v acc
                    | None \<Rightarrow> obj_put ''undefined'' (HPrim JUndefined) acc) es []"

definition visibleCommandsH :: "hcan \<Rightarrow> hmenu \<Rightarrow> req \<Rightarrow> hval hm" where
  "visibleCommandsH can self req =
     hbind (hentries (commandsRef self)) (\<lambda>cs.
     hbind (hmapM (visibleEntryH can self req) cs) (\<lambda>es.
       hnew (entries_object es)))"

definition visibleFieldStepH :: "string list \<Rightarrow> hval \<Rightarrow> hval \<Rightarrow> hval \<Rightarrow> hval hm" where
  "visibleFieldStepH keys visible acc field =
     (case field of
        HPrim (JStr name) \<Rightarrow>
          if name \<in> set keys
          then hbind (hspread acc) (\<lambda>ps.
               hbind (hread (\<lambda>h. hprop h visible name)) (\<lambda>c.
                 hnew (obj_put name c ps)))
          else hreturn acc
      | _ \<Rightarrow> hreturn acc)"

definition visibleFieldsH :: "string list \<Rightarrow> hval \<Rightarrow> hval \<Rightarrow> hval hm" where
  "visibleFieldsH keys visible groupFields =
     hbind (helements groupFields) (\<lambda>fs.
     hbind (hnew []) (\<lambda>empty.
       hfoldM (visibleFieldStepH keys visible) fs empty))"

definition visibleGroupH :: "string list \<Rightarrow> hval \<Rightarrow> string \<times> hval \<Rightarrow> (string \<times> hval) option hm" where
  "visibleGroupH keys visible = (\<lambda>(key, grp).
     hbind (hget grp ''fields'') (\<lambda>groupFields.
     hbind (visibleFieldsH keys visible groupFields) (\<lambda>fs.
     hbind (hread (\<lambda>h. length (hprops h fs))) (\<lambda>n.
       if n \<noteq> 0
       then hbind (hspread grp) (\<lambda>ps.
            hbind (hnew (obj_put ''fields'' fs ps)) (\<lambda>copy.
              hreturn (Some (key, copy))))
       else hreturn None))))"

definition getVisibleGroupsH :: "hmenu \<Rightarrow> hval \<Rightarrow> hval hm" where
  "getVisibleGroupsH self visible =
     hbind (hread (\<lambda>h. map fst (hprops h visible))) (\<lambda>keys.
     hbind (hentries (groupsRef self)) (\<lambda>gs.
     hbind (hmapM (visibleGroupH keys visible) gs) (\<lambda>es.
       hnew (entries_object (filter (\<lambda>e. e \<noteq> None) es)))))"

definition modalStepH ::
  "host \<Rightarrow> string \<Rightarrow> hval \<Rightarrow> hval \<times> hval option \<Rightarrow> string \<times> hval \<Rightarrow> (hval \<times> hval option) hm" where
  "modalStepH host key grp acc = (\<lambda>(name, field).
     hbind (hget field ''modal'') (\<lambda>m.
     hbind (htry (\<lambda>h. hstring h [] (hor m (HPrim JNull)))) (\<lambda>modal.
     hbind (htry (\<lambda>h. haccMember host h acc modal)) (\<lambda>current.
     hbind (htry (\<lambda>h. hlookedMember host h current key)) (\<lambda>currentGroup.
     hbind (hread (\<lambda>h. hlookedFields h currentGroup)) (\<lambda>currentFields.
     hbind (hspread currentFields) (\<lambda>fps.
     hbind (hnew (obj_put name field fps)) (\<lambda>fs.
     hbind (hspreadOr currentGroup grp) (\<lambda>gps.
     hbind (hnew (obj_put ''fields'' fs gps)) (\<lambda>copy.
     hbind (hspreadLooked current) (\<lambda>cps.
     hbind (hnew (obj_put key copy cps)) (\<lambda>entry.
       haccAssign acc modal entry))))))))))))"

definition modalGroupH ::
  "host \<Rightarrow> hval \<times> hval option \<Rightarrow> string \<times> hval \<Rightarrow> (hval \<times> hval option) hm" where
  "modalGroupH host acc = (\<lambda>(key, grp).
     hbind (hget grp ''fields'') (\<lambda>groupFields.
     hbind (hentries groupFields) (\<lambda>entries.
       hfoldM (modalStepH host key grp) entries acc)))"

definition getVisibleModalsH :: "host \<Rightarrow> hmenu \<Rightarrow> hval \<Rightarrow> (hval \<times> hval option) hm" where
  "getVisibleModalsH host self visible =
     hbind (getVisibleGroupsH self visible) (\<lambda>filtered.
     hbind (hentries filtered) (\<lambda>gs.
     hbind (hnew []) (\<lambda>empty.
       hfoldM (modalGroupH host) gs (empty, None))))"

text \<open>The result is the address of the view, together with the prototype of its \<^verbatim>\<open>modals\<close>
  object when that is no longer \<^verbatim>\<open>Object.prototype\<close>.\<close>

definition getVisibleH :: "host \<Rightarrow> hcan \<Rightarrow> hmenu \<Rightarrow> req \<Rightarrow> (hval \<times> hval option) hm" where
  "getVisibleH host can self req =
     hbind (visibleCommandsH can self req) (\<lambda>visible.
     hbind (getVisibleGroupsH self visible) (\<lambda>visibleGroups.
     hbind (getVisibleModalsH host self visible) (\<lambda>(visibleModals, prototype).
     hbind (hnew [(''groups'', visibleGroups), (''modals'', visibleModals)]) (\<lambda>view.
       hreturn (view, prototype)))))"

text \<open>Laying a value out in the store, components first, and reading one back (to the
  given depth).\<close>

fun store_value :: "jsval \<Rightarrow> heap \<Rightarrow> hval \<times> heap"
  and store_list :: "jsval list \<Rightarrow> heap \<Rightarrow> hval list \<times> heap"
  and store_props :: "(string \<times> jsval) list \<Rightarrow> heap \<Rightarrow> (string \<times> hval) list \<times> heap" where
  "store_value (JObj kvs) h = (case store_props kvs h of (ps, h') \<Rightarrow> (HRef (length h'), h' @ [CObj ps]))"
| "store_value (JArr xs) h = (case store_list xs h of (vs, h') \<Rightarrow> (HRef (length h'), h' @ [CArr vs]))"
| "store_value JUndefined h = (HPrim JUndefined, h)"
| "store_value JNull h = (HPrim JNull, h)"
| "store_value (JBool b) h = (HPrim (JBool b), h)"
| "store_value (JNum n) h = (HPrim (JNum n), h)"
| "store_value JNaN h = (HPrim JNaN, h)"
| "store_value (JStr s) h = (HPrim (JStr s), h)"
| "store_list [] h = ([], h)"
| "store_list (x # xs) h =
     (case store_value x h of (v, h') \<Rightarrow> case store_list xs h' of (vs, h'') \<Rightarrow> (v # vs, h''))"
| "store_props [] h = ([], h)"
| "store_props ((k, x) # kvs) h =
     (case store_value x h of (v, h') \<Rightarrow> case store_props kvs h' of (ps, h'') \<Rightarrow> ((k, v) # ps, h''))"

fun load_value :: "nat \<Rightarrow> heap \<Rightarrow> hval \<Rightarrow> jsval" where
  "load_value n h (HPrim j) = j"
| "load_value 0 h (HRef a) = JUndefined"
| "load_value (Suc n) h (HRef a) =
     (if a < length h
      then (case h ! a of
              CObj kvs \<Rightarrow> JObj (map (\<lambda>(k, v). (k, load_value n h v)) kvs)
            | CArr xs \<Rightarrow> JArr (map (load_value n h) xs))
      else JUndefined)"

section \<open>Notions used in the statements\<close>

subsection \<open>Composition\<close>

text \<open>
  The validation statements of a composition cycle over \<open>fragments\<close> raise \<open>e\<close>: the pipeline
  returns, and \<^const>\<open>validateComposed\<close> throws \<open>e\<close> on what it returned.
\<close>

definition validationRaises :: "jsval list \<Rightarrow> error \<Rightarrow> bool" where
  "validationRaises fragments e =
     (case pipe [composeCommand, composeRemove, composeGroup] (JObj [(''rawCommands'', JArr fragments)]) of
        Inl _ \<Rightarrow> False
      | Inr composed \<Rightarrow> validateComposed composed = Inl e)"

text \<open>
  Claim C6 in its own words: the command that the last fragment declaring \<open>name\<close>
  contributes under that name, if any fragment declares it.
\<close>

fun lastDeclared :: "string \<Rightarrow> jsval list \<Rightarrow> jsval option" where
  "lastDeclared name [] = None"
| "lastDeclared name (fragment # rest) =
     (case lastDeclared name rest of
        Some command \<Rightarrow> Some command
      | None \<Rightarrow> map_of (own_props (js_prop fragment ''add'')) name)"

text \<open>A fragment as the data model has it for \<^verbatim>\<open>add\<close>: the attribute is absent or is an
  object (whose keys are distinct, as the keys of every object are).\<close>

definition addFragment :: "jsval \<Rightarrow> bool" where
  "addFragment fragment =
     (\<not> nullish fragment \<and>
      (case js_prop fragment ''add'' of
         JUndefined \<Rightarrow> True
       | JObj cs \<Rightarrow> distinct (map fst cs)
       | _ \<Rightarrow> False))"

text \<open>
  Claim C7 in its own words: the attribute objects that the fragments contribute for the
  group \<open>name\<close>, in collector order, and the \<^verbatim>\<open>fields\<close> sequence of one of them.
\<close>

definition contributions :: "string \<Rightarrow> props \<Rightarrow> jsval list" where
  "contributions name entries = map snd (filter (\<lambda>entry. fst entry = name) entries)"

definition groupContributions :: "string \<Rightarrow> jsval list \<Rightarrow> jsval list" where
  "groupContributions name fragments =
     contributions name (concat (map (\<lambda>fragment. own_props (js_prop fragment ''group'')) fragments))"

definition fieldsOf :: "jsval \<Rightarrow> jsval list" where
  "fieldsOf attributes = (case js_prop attributes ''fields'' of JArr fs \<Rightarrow> fs | _ \<Rightarrow> [])"

text \<open>A fragment as the data model has it for \<^verbatim>\<open>group\<close>: an object that maps group names
  to objects with a \<^verbatim>\<open>fields\<close> array.\<close>

definition groupAttributes :: "jsval \<Rightarrow> bool" where
  "groupAttributes attributes =
     (case attributes of
        JObj as \<Rightarrow> distinct (map fst as) \<and> (case map_of as ''fields'' of Some (JArr fs) \<Rightarrow> True | _ \<Rightarrow> False)
      | _ \<Rightarrow> False)"

definition groupFragment :: "jsval \<Rightarrow> bool" where
  "groupFragment fragment =
     (\<not> nullish fragment \<and>
      (case js_prop fragment ''group'' of
         JObj gs \<Rightarrow> list_all (\<lambda>entry. groupAttributes (snd entry)) gs
       | _ \<Rightarrow> False))"

text \<open>What the accumulator of \<^verbatim>\<open>formatGroups\<close> looks like: every group in it is an object
  with a \<^verbatim>\<open>fields\<close> array.\<close>

definition mergedGroups :: "props \<Rightarrow> bool" where
  "mergedGroups acc =
     (distinct (map fst acc) \<and>
      (\<forall>name v. map_of acc name = Some v \<longrightarrow>
         (\<exists>m fs. v = JObj m \<and> map_of m ''fields'' = Some (JArr fs))))"

definition accumulatedFields :: "props \<Rightarrow> string \<Rightarrow> jsval list" where
  "accumulatedFields acc name = (case map_of acc name of Some v \<Rightarrow> fieldsOf v | None \<Rightarrow> [])"

subsection \<open>Visibility\<close>

text \<open>
  The permission filter as claim C4 words it: a command without a \<^verbatim>\<open>permission\<close> attribute
  passes; one with the attribute passes iff the oracle grants
  \<^verbatim>\<open>(permission.action, permission.type, mode)\<close>, where \<^verbatim>\<open>mode\<close> is \<^verbatim>\<open>"draft"\<close> exactly when
  \<^verbatim>\<open>permission.mode\<close> is absent.
\<close>

definition isCommandVisible_claimed :: "can \<Rightarrow> req \<Rightarrow> jsval \<Rightarrow> bool" where
  "isCommandVisible_claimed can req command =
     (case map_of (own_props command) ''permission'' of
        None \<Rightarrow> True
      | Some permission \<Rightarrow>
          can req (js_prop permission ''action'') (js_prop permission ''type'')
            (case map_of (own_props permission) ''mode'' of
               None \<Rightarrow> JStr ''draft''
             | Some mode \<Rightarrow> mode))"











subsection \<open>Stores\<close>

text \<open>
  A value is old with respect to a store of \<open>n\<close> cells when it does not refer beyond them;
  a store is closed when every value in its cells is old with respect to it.
\<close>

definition old :: "nat \<Rightarrow> hval \<Rightarrow> bool" where
  "old n v = (case v of HPrim j \<Rightarrow> True | HRef a \<Rightarrow> a < n)"

definition cell_vals :: "cell \<Rightarrow> hval list" where
  "cell_vals c = (case c of CObj kvs \<Rightarrow> map snd kvs | CArr xs \<Rightarrow> xs)"

definition closed :: "heap \<Rightarrow> bool" where
  "closed h = list_all (\<lambda>c. list_all (old (length h)) (cell_vals c)) h"

text \<open>Moving the addresses from \<open>n\<close> on up by \<open>d\<close>: in a value, in a cell, in the result of
  a lookup, and in the accumulator of the modal view with its prototype.\<close>

definition mv :: "nat \<Rightarrow> nat \<Rightarrow> nat \<Rightarrow> nat" where
  "mv n d a = (if a < n then a else a + d)"

definition sh :: "nat \<Rightarrow> nat \<Rightarrow> hval \<Rightarrow> hval" where
  "sh n d v = (case v of HPrim j \<Rightarrow> HPrim j | HRef a \<Rightarrow> HRef (mv n d a))"

definition shc :: "nat \<Rightarrow> nat \<Rightarrow> cell \<Rightarrow> cell" where
  "shc n d c = (case c of CObj kvs \<Rightarrow> CObj (map (apsnd (sh n d)) kvs) | CArr xs \<Rightarrow> CArr (map (sh n d) xs))"

definition shl :: "nat \<Rightarrow> nat \<Rightarrow> hlooked \<Rightarrow> hlooked" where
  "shl n d r = (case r of HValue v \<Rightarrow> HValue (sh n d v) | HBuiltin b \<Rightarrow> HBuiltin b)"

definition sha :: "nat \<Rightarrow> nat \<Rightarrow> hval \<times> hval option \<Rightarrow> hval \<times> hval option" where
  "sha n d acc = (case acc of (target, proto) \<Rightarrow> (sh n d target, map_option (sh n d) proto))"

definition fresh :: "nat \<Rightarrow> hval \<Rightarrow> bool" where
  "fresh n v = (case v of HPrim j \<Rightarrow> False | HRef a \<Rightarrow> n \<le> a)"

text \<open>
  \<open>sim pre ext sa P m m'\<close>: started in a store that extends \<open>pre\<close> by cells \<open>new\<close>, the
  computation \<open>m\<close> leaves \<open>pre\<close> as it is, and \<open>m'\<close>, started with the cells \<open>ext\<close> in between
  and the addresses of \<open>new\<close> moved up accordingly, does the same as \<open>m\<close> up to that move;
  moreover the result of \<open>m\<close> satisfies \<open>P\<close>.
\<close>

definition sim :: "heap \<Rightarrow> heap \<Rightarrow> ('a \<Rightarrow> 'a) \<Rightarrow> ('a \<Rightarrow> bool) \<Rightarrow> 'a hm \<Rightarrow> 'a hm \<Rightarrow> bool" where
  "sim pre ext sa P m m' =
     (\<forall>new. \<exists>r new2.
        m (pre @ new) = (r, pre @ new2) \<and>
        m' (pre @ ext @ map (shc (length pre) (length ext)) new) =
          (map_sum id sa r, pre @ ext @ map (shc (length pre) (length ext)) new2) \<and>
        (\<forall>x. r = Inr x \<longrightarrow> P x))"

section \<open>Example data\<close>

text \<open>Concrete commands, fragments, module states, requests and oracles at which the
  theorems are evaluated.\<close>

subsection \<open>Commands\<close>

text \<open>A command that satisfies every rule of the validator, and one whose shortcut is a
  number.\<close>

definition valid_command :: jsval where
  "valid_command = JObj [(''type'', JStr ''item''), (''label'', JStr ''Save''),
     (''action'', JObj [(''type'', JStr ''save''), (''payload'', JObj [])]),
     (''shortcut'', JStr ''Ctrl+S'')]"

definition numeric_shortcut_command :: jsval where
  "numeric_shortcut_command = JObj [(''type'', JStr ''item''), (''label'', JStr ''Quit''),
     (''action'', JObj [(''type'', JStr ''quit''), (''payload'', JObj [])]),
     (''shortcut'', JNum 5)]"

text \<open>A command whose \<^verbatim>\<open>action\<close> is \<^verbatim>\<open>null\<close> and whose \<^verbatim>\<open>permission\<close> is an empty array.\<close>

definition untyped_action_command :: jsval where
  "untyped_action_command = JObj [(''type'', JStr ''item''), (''label'', JStr ''Open''),
     (''action'', JNull), (''permission'', JArr []), (''shortcut'', JStr ''O'')]"

text \<open>A command whose permission carries the empty string as its mode.\<close>

definition empty_mode_command :: jsval where
  "empty_mode_command = JObj [(''type'', JStr ''item''), (''label'', JStr ''Edit''),
     (''action'', JObj [(''type'', JStr ''edit''), (''payload'', JObj [])]),
     (''permission'', JObj [(''action'', JStr ''edit''), (''type'', JStr ''doc''), (''mode'', JStr '''')]),
     (''shortcut'', JStr ''E'')]"

subsection \<open>Fragments\<close>

text \<open>A fragment that adds the valid command first and the one with the numeric shortcut
  second, and the fragment with the two in the other order.\<close>

definition valid_first_fragment :: jsval where
  "valid_first_fragment = JObj
     [(''add'', JObj [(''doc:save'', valid_command), (''doc:quit'', numeric_shortcut_command)]),
      (''group'', JObj [(''doc:general'', JObj [(''label'', JStr ''General''),
                          (''fields'', JArr [JStr ''doc:save'', JStr ''doc:quit''])])])]"

definition invalid_first_fragment :: jsval where
  "invalid_first_fragment = JObj
     [(''add'', JObj [(''doc:quit'', numeric_shortcut_command), (''doc:save'', valid_command)]),
      (''group'', JObj [(''doc:general'', JObj [(''label'', JStr ''General''),
                          (''fields'', JArr [JStr ''doc:save'', JStr ''doc:quit''])])])]"


text \<open>
  A fragment whose commands and groups each satisfy every rule of the validator. It
  removes the command \<^verbatim>\<open>doc:save\<close>. Its command \<^verbatim>\<open>fields\<close> has the modal key \<^verbatim>\<open>__proto__\<close>
  and a further property, named \<^verbatim>\<open>doc:save\<close>, that holds that command; its command \<^verbatim>\<open>x\<close>
  has the modal key \<^verbatim>\<open>g1\<close>, which is also the name of a group.
\<close>

definition shadowing_fragment :: jsval where
  "shadowing_fragment = JObj
     [(''add'', JObj
         [(''doc:save'', valid_command),
          (''fields'', JObj [(''type'', JStr ''item''), (''label'', JStr ''Fields''),
             (''action'', JObj [(''type'', JStr ''fields''), (''payload'', JObj [])]),
             (''modal'', JStr ''__proto__''), (''shortcut'', JStr ''F''),
             (''doc:save'', valid_command)]),
          (''x'', JObj [(''type'', JStr ''item''), (''label'', JStr ''X''),
             (''action'', JObj [(''type'', JStr ''x''), (''payload'', JObj [])]),
             (''modal'', JStr ''g1''), (''shortcut'', JStr ''X'')])]),
      (''remove'', JArr [JStr ''doc:save'']),
      (''group'', JObj
         [(''g1'', JObj [(''label'', JStr ''G1''), (''fields'', JArr [JStr ''fields''])]),
          (''fields'', JObj [(''label'', JStr ''F''), (''fields'', JArr [JStr ''x''])])])]"

text \<open>
  A fragment whose command and group satisfy every rule of the validator: it adds and
  removes \<^verbatim>\<open>doc:save\<close>, and its group lists the field name \<^verbatim>\<open>undefined\<close>.
\<close>

definition undefined_field_fragment :: jsval where
  "undefined_field_fragment = JObj
     [(''add'', JObj [(''doc:save'', valid_command)]),
      (''remove'', JArr [JStr ''doc:save'']),
      (''group'', JObj [(''doc:general'', JObj [(''label'', JStr ''General''),
                          (''fields'', JArr [JStr ''undefined''])])])]"

text \<open>Two fragments that declare the command \<^verbatim>\<open>x\<close>.\<close>

definition first_x_fragment :: jsval where
  "first_x_fragment = JObj [(''add'', JObj [(''x'', valid_command)])]"

definition second_x_fragment :: jsval where
  "second_x_fragment = JObj [(''add'', JObj [(''x'', numeric_shortcut_command)])]"

text \<open>Two fragments that contribute to the group \<^verbatim>\<open>g\<close>.\<close>

definition first_g_fragment :: jsval where
  "first_g_fragment = JObj [(''group'', JObj [(''g'', JObj [(''label'', JStr ''L1''), (''fields'', JArr [JStr ''a''])])])]"

definition second_g_fragment :: jsval where
  "second_g_fragment = JObj [(''group'', JObj [(''g'', JObj [(''label'', JStr ''L2''), (''fields'', JArr [JStr ''b''])])])]"

subsection \<open>Module states\<close>

text \<open>The state that \<^verbatim>\<open>init\<close> sets up.\<close>

definition initial_menu :: command_menu where
  "initial_menu = \<lparr>rawCommands = JArr [], removes = JArr [], commands = JObj [],
     groups = JObj [], modals = JObj [], components = JObj []\<rparr>"

text \<open>The state after a cycle that published both commands, and the state after a cycle
  that also collected the removal of \<^verbatim>\<open>doc:quit\<close>.\<close>

definition published_menu :: command_menu where
  "published_menu = snd (composeCommands [valid_first_fragment] initial_menu)"


text \<open>The states after the cycles that publish the shadowing fragment and the fragment
  with the field name \<^verbatim>\<open>undefined\<close>.\<close>

definition shadowing_menu :: command_menu where
  "shadowing_menu = snd (composeCommands [shadowing_fragment] initial_menu)"

definition undefined_field_menu :: command_menu where
  "undefined_field_menu = snd (composeCommands [undefined_field_fragment] initial_menu)"

text \<open>A small module state: two commands, one of them removed, and one group.\<close>

definition small_menu :: command_menu where
  "small_menu = \<lparr>rawCommands = JArr [], removes = JArr [JStr ''y''],
     commands = JObj [(''x'', JObj [(''modal'', JStr ''M'')]), (''y'', JObj [])],
     groups = JObj [(''g'', JObj [(''label'', JStr ''G''), (''fields'', JArr [JStr ''x'', JStr ''y''])])],
     modals = JUndefined, components = JObj []\<rparr>"

text \<open>A module state laid out in an empty store.\<close>

definition store_menu :: "command_menu \<Rightarrow> hmenu \<times> heap" where
  "store_menu self =
     (case store_value (removes self) [] of (r, h1) \<Rightarrow>
        (case store_value (commands self) h1 of (c, h2) \<Rightarrow>
           (case store_value (groups self) h2 of (g, h3) \<Rightarrow>
              (\<lparr>removesRef = r, commandsRef = c, groupsRef = g\<rparr>, h3))))"

subsection \<open>Requests, oracles and hosts\<close>

text \<open>An authenticated request and an anonymous one.\<close>

definition editor_req :: req where
  "editor_req = \<lparr>user = JObj [(''username'', JStr ''editor'')]\<rparr>"

definition anonymous_req :: req where
  "anonymous_req = \<lparr>user = JUndefined\<rparr>"

text \<open>An oracle that grants exactly the requests made in mode \<^verbatim>\<open>"draft"\<close>.\<close>

definition draft_only :: can where
  "draft_only req action type mode = (mode = JStr ''draft'')"

text \<open>
  A host whose \<^verbatim>\<open>Object.prototype\<close> has the members that the standard lists, all of them
  functions but for the accessor \<^verbatim>\<open>__proto__\<close>, which yields \<^verbatim>\<open>null\<close> on \<^verbatim>\<open>Object.prototype\<close>
  itself. The examples read no member of any other built-in object, and this host gives
  them none.
\<close>

definition example_host :: host where
  "example_host b k =
     Inr (if b = ''Object.prototype'' \<and>
             k \<in> set [''constructor'', ''hasOwnProperty'', ''isPrototypeOf'',
                      ''propertyIsEnumerable'', ''toLocaleString'', ''toString'', ''valueOf'',
                      ''__defineGetter__'', ''__defineSetter__'', ''__lookupGetter__'',
                      ''__lookupSetter__'']
          then Builtin (b @ ''.'' @ k)
          else if b = ''Object.prototype'' \<and> k = ''__proto__'' then Value JNull
          else Value JUndefined)"

text \<open>The same oracle on store values.\<close>

definition draft_only_h :: hcan where
  "draft_only_h req action type mode = (mode = HPrim (JStr ''draft''))"

section \<open>Properties\<close>

subsection \<open>Exceptions and objects\<close>

lemma ebind_Inr_iff: "ebind m f = Inr y \<longleftrightarrow> (\<exists>x. m = Inr x \<and> f x = Inr y)"
  by (cases m) auto

lemma ebind_Inl_iff: "ebind m f = Inl e \<longleftrightarrow> m = Inl e \<or> (\<exists>x. m = Inr x \<and> f x = Inl e)"
  by (cases m) auto

lemma map_of_replace_prop:
  "k \<in> fst ` set kvs \<Longrightarrow> map_of (replace_prop k v kvs) = (map_of kvs)(k \<mapsto> v)"
proof (induction kvs)
  case Nil
  then show ?case by simp
next
  case (Cons p kvs)
  show ?case
  proof (cases "fst p = k")
    case True
    then show ?thesis by (cases p) (auto simp: fun_eq_iff)
  next
    case False
    with Cons.prems have "k \<in> fst ` set kvs" by auto
    with Cons.IH False show ?thesis by (cases p) (auto simp: fun_eq_iff)
  qed
qed

lemma map_of_insert_index:
  "k \<notin> fst ` set kvs \<Longrightarrow> map_of (insert_index n k v kvs) = (map_of kvs)(k \<mapsto> v)"
  by (induction kvs) (auto simp: fun_eq_iff split: option.splits)

lemma map_of_snoc: "k \<notin> fst ` set kvs \<Longrightarrow> map_of (kvs @ [(k, v)]) = (map_of kvs)(k \<mapsto> v)"
  by (induction kvs) (auto simp: fun_eq_iff)

lemma map_of_obj_put [simp]: "map_of (obj_put k v kvs) = (map_of kvs)(k \<mapsto> v)"
  by (auto simp: obj_put_def map_of_replace_prop map_of_insert_index map_of_snoc
      simp del: map_of_append split: option.splits)

lemma keys_replace_prop: "map fst (replace_prop k v kvs) = map fst kvs"
  by (induction kvs) auto

lemma set_insert_index: "set (insert_index n k v kvs) = insert (k, v) (set kvs)"
  by (induction kvs) (auto split: option.splits if_splits)

lemma keys_obj_put [simp]: "fst ` set (obj_put k v kvs) = insert k (fst ` set kvs)"
proof -
  have "fst ` set (replace_prop k v kvs) = fst ` set kvs"
    using keys_replace_prop [of k v kvs] by (metis set_map)
  then show ?thesis
    by (auto simp: obj_put_def set_insert_index split: option.splits)
qed

lemma distinct_replace_prop:
  "distinct (map fst kvs) \<Longrightarrow> distinct (map fst (replace_prop k v kvs))"
  by (simp add: keys_replace_prop)

lemma distinct_insert_index:
  "distinct (map fst kvs) \<Longrightarrow> k \<notin> fst ` set kvs \<Longrightarrow> distinct (map fst (insert_index n k v kvs))"
  by (induction kvs) (auto simp: set_insert_index split: option.splits)

lemma distinct_obj_put [simp]:
  "distinct (map fst kvs) \<Longrightarrow> distinct (map fst (obj_put k v kvs))"
  by (auto simp: obj_put_def distinct_replace_prop distinct_insert_index split: option.splits)

lemma fold_obj_put_keys:
  "fst ` set (fold (\<lambda>(k, x). obj_put k x) ps acc) = fst ` set acc \<union> fst ` set ps"
  by (induction ps arbitrary: acc) (auto simp: case_prod_beta)

lemma fold_obj_put_distinct:
  "distinct (map fst acc) \<Longrightarrow> distinct (map fst (fold (\<lambda>(k, x). obj_put k x) ps acc))"
  by (induction ps arbitrary: acc) (auto simp: case_prod_beta)

lemma fold_obj_put_map_of:
  "map_of (fold (\<lambda>(k, x). obj_put k x) ps acc) = map_of acc ++ map_of (rev ps)"
  by (induction ps arbitrary: acc) (auto simp: case_prod_beta fun_eq_iff map_add_def split: option.splits)

lemma keys_spread_into [simp]:
  "fst ` set (spread_into acc v) = fst ` set acc \<union> fst ` set (own_props v)"
  by (simp add: spread_into_def fold_obj_put_keys)

lemma distinct_spread_into [simp]:
  "distinct (map fst acc) \<Longrightarrow> distinct (map fst (spread_into acc v))"
  by (simp add: spread_into_def fold_obj_put_distinct)

lemma map_of_spread_into:
  "map_of (spread_into acc v) = map_of acc ++ map_of (rev (own_props v))"
  by (simp add: spread_into_def fold_obj_put_map_of)

lemma map_of_rev_distinct: "distinct (map fst kvs) \<Longrightarrow> map_of (rev kvs) = map_of kvs"
  by (rule map_of_inject_set[THEN iffD2]) (auto simp: rev_map[symmetric])

subsection \<open>Composition cycle\<close>

text \<open>
  Claim C1 says that every published command has been checked against all structural
  rules, and that a violation in any entry prevents publication. The code does not do
  this. \<^verbatim>\<open>Object.entries(composed.command).some(...)\<close> stops at the first entry for which
  \<^verbatim>\<open>validateCommand\<close> returns \<^verbatim>\<open>true\<close>, which is every entry that does not throw; and inside
  \<^verbatim>\<open>validateCommand\<close> the assertions chained with \<^verbatim>\<open>&&\<close> stop after the first one, because
  \<^verbatim>\<open>assert.equal\<close> returns \<^verbatim>\<open>undefined\<close>. At the fragment below the cycle publishes, the
  published table holds the command \<^verbatim>\<open>doc:quit\<close> whose shortcut is the number 5, and
  \<^verbatim>\<open>validateCommand\<close> itself, when asked, rejects that command; a command whose action is
  \<^verbatim>\<open>null\<close> and whose permission is an array passes \<^verbatim>\<open>validateCommand\<close>.
\<close>

theorem composeCommands_publishes_unchecked:
  "fst (composeCommands [valid_first_fragment] initial_menu) = Published
   \<and> js_prop (commands (snd (composeCommands [valid_first_fragment] initial_menu))) ''doc:quit'' = numeric_shortcut_command
   \<and> validateCommand ''doc:quit'' numeric_shortcut_command = Inl (AssertionError ''Invalid command shortcut, must be a string, for doc:quit'')
   \<and> validateCommand ''doc:open'' untyped_action_command = Inr True"
  by code_simp

lemma composeCommand_keys:
  "composeCommand s = Inr out \<Longrightarrow> \<exists>kvs. out = JObj kvs \<and> fst ` set kvs = insert ''command'' (fst ` set (own_props s))"
  by (auto simp: composeCommand_def ebind_Inr_iff Let_def)

lemma composeRemove_keys:
  "composeRemove s = Inr out \<Longrightarrow> \<exists>kvs. out = JObj kvs \<and> fst ` set kvs = insert ''remove'' (fst ` set (own_props s))"
  by (auto simp: composeRemove_def ebind_Inr_iff Let_def)

lemma composeGroup_keys:
  "composeGroup s = Inr out \<Longrightarrow> \<exists>kvs. out = JObj kvs \<and> fst ` set kvs = insert ''group'' (fst ` set (own_props s))"
proof -
  assume a: "composeGroup s = Inr out"
  then obtain raw where raw: "get s ''rawCommands'' = Inr raw"
    by (auto simp: composeGroup_def ebind_Inr_iff)
  with a show ?thesis
    by (cases raw) (auto simp: composeGroup_def ebind_Inr_iff)
qed

lemma pipeline_keys:
  assumes "pipe [composeCommand, composeRemove, composeGroup] (JObj [(''rawCommands'', r)]) = Inr composed"
  shows "\<exists>kvs. composed = JObj kvs \<and> fst ` set kvs = {''rawCommands'', ''command'', ''remove'', ''group''}"
proof -
  from assms obtain s1 s2 where
    1: "composeCommand (JObj [(''rawCommands'', r)]) = Inr s1" and
    2: "composeRemove s1 = Inr s2" and
    3: "composeGroup s2 = Inr composed"
    by (auto simp: pipe_def ebind_Inr_iff)
  from composeCommand_keys [OF 1] obtain k1 where
    k1: "s1 = JObj k1" "fst ` set k1 = {''command'', ''rawCommands''}" by auto
  from composeRemove_keys [OF 2] k1 obtain k2 where
    k2: "s2 = JObj k2" "fst ` set k2 = {''remove'', ''command'', ''rawCommands''}" by auto
  from composeGroup_keys [OF 3] k2 obtain k3 where
    "composed = JObj k3" "fst ` set k3 = {''group'', ''remove'', ''command'', ''rawCommands''}" by auto
  then show ?thesis by auto
qed

lemma pipeline_no_modal:
  assumes "pipe [composeCommand, composeRemove, composeGroup] (JObj [(''rawCommands'', r)]) = Inr composed"
  shows "js_prop composed ''modal'' = JUndefined"
proof -
  from pipeline_keys [OF assms] obtain kvs where
    kvs: "composed = JObj kvs" "fst ` set kvs = {''rawCommands'', ''command'', ''remove'', ''group''}"
    by auto
  then have "''modal'' \<notin> fst ` set kvs" by simp
  then have "map_of kvs ''modal'' = None" by (simp add: map_of_eq_None_iff)
  with kvs show ?thesis by simp
qed

text \<open>
  Claim C2: when validation raises, the cycle is abandoned as a whole. The handler has
  cleared \<^verbatim>\<open>removes\<close>, \<^verbatim>\<open>commands\<close> and \<^verbatim>\<open>groups\<close> before composing, the assignments of
  the composed tables are never reached, and the \<^verbatim>\<open>catch\<close> clause logs the exception, so
  that the handler ends normally with the tables empty.
\<close>

theorem composeCommands_validation_error:
  assumes "validationRaises fragments e"
  shows "composeCommands fragments self =
           (Logged e, self\<lparr>rawCommands := JArr fragments, removes := JArr [], commands := JObj [],
                            groups := JObj [], modals := JObj []\<rparr>)"
  using assms by (auto simp: validationRaises_def composeCommands_def split: sum.splits)

theorem composeCommands_validation_error_witness:
  "validationRaises [invalid_first_fragment]
     (AssertionError ''Invalid command shortcut, must be a string, for doc:quit'')
   \<and> composeCommands [invalid_first_fragment] initial_menu =
       (Logged (AssertionError ''Invalid command shortcut, must be a string, for doc:quit''),
        initial_menu\<lparr>rawCommands := JArr [invalid_first_fragment], removes := JArr [],
                      commands := JObj [], groups := JObj [], modals := JObj []\<rparr>)"
proof -
  have h: "validationRaises [invalid_first_fragment]
     (AssertionError ''Invalid command shortcut, must be a string, for doc:quit'')"
    by code_simp
  from h composeCommands_validation_error [OF h, of initial_menu] show ?thesis by simp
qed

text \<open>
  Claim C10, as amended: after a cycle that publishes, \<^verbatim>\<open>self.modals\<close> is \<^verbatim>\<open>undefined\<close>,
  because the pipeline has no modal stage and \<^verbatim>\<open>composed.modal\<close> does not exist; after a
  cycle that does not publish (validation raised, or the pipeline threw), it is the empty
  object that the handler assigned before composing. The claim as stated, \<^verbatim>\<open>undefined\<close>
  after every cycle, fails at a cycle whose first command has a numeric shortcut.
\<close>

theorem composeCommands_modals:
  "modals (snd (composeCommands fragments self)) =
     (if fst (composeCommands fragments self) = Published then JUndefined else JObj [])"
  by (auto simp: composeCommands_def Let_def split: sum.splits dest: pipeline_no_modal)

theorem composeCommands_modals_counterexample:
  "modals (snd (composeCommands [invalid_first_fragment] initial_menu)) \<noteq> JUndefined"
  by code_simp

subsection \<open>Permission filter\<close>

text \<open>
  Claim C4, as amended: a command whose \<^verbatim>\<open>permission\<close> is absent or falsy passes the
  filter; otherwise it passes iff the oracle grants
  \<^verbatim>\<open>can(req, permission.action, permission.type, mode)\<close>, where \<^verbatim>\<open>mode\<close> is
  \<^verbatim>\<open>permission.mode\<close> when that is truthy and \<^verbatim>\<open>"draft"\<close> otherwise
  (\<^verbatim>\<open>permission.mode || 'draft'\<close>). The claim as stated lets \<^verbatim>\<open>"draft"\<close> stand in exactly when
  the mode is absent; the code also replaces a mode that is present and falsy, such as
  the empty string, and the two differ under an oracle that grants only draft requests.
\<close>

theorem isCommandVisible_permission:
  "\<not> nullish command \<Longrightarrow>
   isCommandVisible can req command =
     Inr (if truthy (js_prop command ''permission'')
          then can req (js_prop (js_prop command ''permission'') ''action'')
                 (js_prop (js_prop command ''permission'') ''type'')
                 (if truthy (js_prop (js_prop command ''permission'') ''mode'')
                  then js_prop (js_prop command ''permission'') ''mode''
                  else JStr ''draft'')
          else True)"
  by (simp add: isCommandVisible_def get_def js_or_def)

theorem isCommandVisible_permission_witness:
  "\<not> nullish empty_mode_command \<and>
   isCommandVisible draft_only editor_req empty_mode_command = Inr True"
  using isCommandVisible_permission [of empty_mode_command draft_only editor_req]
  by (simp add: empty_mode_command_def nullish_def draft_only_def)

theorem isCommandVisible_claimed_counterexample:
  "isCommandVisible draft_only editor_req empty_mode_command
     \<noteq> Inr (isCommandVisible_claimed draft_only editor_req empty_mode_command)"
  by code_simp

subsection \<open>Add-merge\<close>

lemma emap_get:
  "\<forall>f \<in> set fs. \<not> nullish f \<Longrightarrow> emap (\<lambda>c. get c k) fs = Inr (map (\<lambda>c. js_prop c k) fs)"
  by (induction fs) (auto simp: get_def)

lemma map_of_copy:
  "distinct (map fst kvs) \<Longrightarrow> map_of (spread_into [] (JObj kvs)) = map_of kvs"
  by (simp add: map_of_spread_into map_of_rev_distinct)

lemma add_merge_fold:
  assumes "\<forall>f \<in> set fs. addFragment f" and "distinct (map fst acc)"
  shows "distinct (map fst (fold (\<lambda>command acc. spread_into (spread_into [] (JObj acc)) command)
            (filter truthy (concat_args (map (\<lambda>c. js_prop c ''add'') fs))) acc)) \<and>
         (\<forall>name. map_of (fold (\<lambda>command acc. spread_into (spread_into [] (JObj acc)) command)
            (filter truthy (concat_args (map (\<lambda>c. js_prop c ''add'') fs))) acc) name =
            (case lastDeclared name fs of Some c \<Rightarrow> Some c | None \<Rightarrow> map_of acc name))"
  using assms
proof (induction fs arbitrary: acc)
  case Nil
  then show ?case by simp
next
  case (Cons f fs)
  from Cons.prems have f: "addFragment f" and fs: "\<forall>f \<in> set fs. addFragment f" by auto
  show ?case
  proof (cases "js_prop f ''add''")
    case JUndefined
    with Cons.IH [OF fs Cons.prems(2)] show ?thesis
      by (auto split: option.splits)
  next
    case (JObj cs)
    with f have dcs: "distinct (map fst cs)" by (simp add: addFragment_def)
    let ?acc = "spread_into (spread_into [] (jsval.JObj acc)) (jsval.JObj cs)"
    from Cons.prems(2) have d: "distinct (map fst ?acc)" by simp
    from Cons.prems(2) dcs have m: "map_of ?acc = map_of acc ++ map_of cs"
      by (simp add: map_of_spread_into [of _ "jsval.JObj cs"] map_of_copy map_of_rev_distinct)
    from Cons.IH [OF fs d] JObj m show ?thesis
      by (auto simp: map_add_def split: option.splits)
  qed (use f in \<open>auto simp: addFragment_def\<close>)
qed

text \<open>
  Claim C6: add-merge is last-writer-wins over collector order. The composed command
  table maps every name to the whole command that the last fragment declaring the name
  contributes, and holds no other name.
\<close>

theorem composeCommand_last_writer_wins:
  assumes "\<forall>fragment \<in> set fragments. addFragment fragment"
  shows "\<exists>composed table.
           composeCommand (JObj [(''rawCommands'', JArr fragments)]) = Inr composed \<and>
           js_prop composed ''command'' = JObj table \<and>
           (\<forall>name. map_of table name = lastDeclared name fragments)"
proof -
  from assms have "\<forall>f \<in> set fragments. \<not> nullish f" by (simp add: addFragment_def)
  then have adds: "emap (\<lambda>c. get c ''add'') fragments = Inr (map (\<lambda>c. js_prop c ''add'') fragments)"
    by (rule emap_get)
  from add_merge_fold [OF assms, of "[]"]
  have "\<forall>name. map_of (fold (\<lambda>command acc. spread_into (spread_into [] (JObj acc)) command)
            (filter truthy (concat_args (map (\<lambda>c. js_prop c ''add'') fragments))) []) name =
            lastDeclared name fragments"
    by (auto split: option.splits)
  with adds show ?thesis
    by (simp add: composeCommand_def get_def nullish_def array_map_def Let_def)
qed

theorem composeCommand_last_writer_wins_witness:
  "addFragment first_x_fragment \<and> addFragment second_x_fragment \<and>
   (\<exists>composed table.
      composeCommand (JObj [(''rawCommands'', JArr [first_x_fragment, second_x_fragment])]) = Inr composed \<and>
      js_prop composed ''command'' = JObj table \<and>
      map_of table ''x'' = Some numeric_shortcut_command)"
proof -
  have h: "\<forall>fragment \<in> set [first_x_fragment, second_x_fragment]. addFragment fragment"
    by (simp add: addFragment_def first_x_fragment_def second_x_fragment_def nullish_def)
  have l: "lastDeclared ''x'' [first_x_fragment, second_x_fragment] = Some numeric_shortcut_command"
    by (simp add: first_x_fragment_def second_x_fragment_def)
  from composeCommand_last_writer_wins [OF h] l h show ?thesis by (simp del: lastDeclared.simps) metis
qed

subsection \<open>Group-merge\<close>

lemma efold_append: "efold f (xs @ ys) acc = ebind (efold f xs acc) (efold f ys)"
proof (induction xs arbitrary: acc)
  case Nil
  show ?case by simp
next
  case (Cons x xs)
  then show ?case by (cases "f acc x") auto
qed

lemma mergeGroup_step:
  assumes "mergedGroups acc" and "groupAttributes a"
  shows "\<exists>acc' m. mergeGroup acc (n, a) = Inr acc' \<and> mergedGroups acc' \<and>
           (\<forall>name. name \<noteq> n \<longrightarrow> map_of acc' name = map_of acc name) \<and>
           map_of acc' n = Some (JObj m) \<and>
           map_of m ''fields'' = Some (JArr (accumulatedFields acc n @ fieldsOf a)) \<and>
           (\<forall>k. k \<noteq> ''fields'' \<longrightarrow> map_of m k = map_of (own_props a) k)"
proof -
  from assms(2) obtain as where as: "a = JObj as" "distinct (map fst as)"
    and shape: "case map_of as ''fields'' of Some (JArr fs) \<Rightarrow> True | _ \<Rightarrow> False"
    by (cases a) (auto simp: groupAttributes_def)
  from shape obtain v where v: "map_of as ''fields'' = Some v"
    by (cases "map_of as ''fields''") auto
  with shape obtain fs where "v = JArr fs" by (cases v) auto
  with as v have a: "a = JObj as" "distinct (map fst as)" "map_of as ''fields'' = Some (JArr fs)"
    by auto
  from assms(1) have d: "distinct (map fst acc)" by (simp add: mergedGroups_def)
  have old: "js_or (opt_get (js_prop (JObj acc) n) ''fields'') (JArr []) = JArr (accumulatedFields acc n)"
  proof (cases "map_of acc n")
    case None
    then show ?thesis by (simp add: opt_get_def nullish_def js_or_def accumulatedFields_def)
  next
    case (Some v)
    with assms(1) obtain m gs where "v = JObj m" "map_of m ''fields'' = Some (JArr gs)"
      unfolding mergedGroups_def by blast
    with Some show ?thesis
      by (simp add: opt_get_def nullish_def js_or_def accumulatedFields_def fieldsOf_def)
  qed
  let ?m = "obj_put ''fields'' (JArr (accumulatedFields acc n @ fs)) (spread_into [] a)"
  let ?acc = "obj_put n (JObj ?m) (spread_into [] (JObj acc))"
  have step: "mergeGroup acc (n, a) = Inr ?acc"
    using a old by (simp add: mergeGroup_def get_def nullish_def)
  have ma: "map_of ?acc = (map_of acc)(n \<mapsto> JObj ?m)"
    using d by (simp add: map_of_copy)
  have mm: "map_of ?m = (map_of as)(''fields'' \<mapsto> JArr (accumulatedFields acc n @ fs))"
    using a by (simp add: map_of_copy)
  have "mergedGroups ?acc"
    unfolding mergedGroups_def
  proof (intro conjI allI impI)
    show "distinct (map fst ?acc)" by simp
  next
    fix name v assume "map_of ?acc name = Some v"
    with ma mm assms(1) show "\<exists>m fs. v = JObj m \<and> map_of m ''fields'' = Some (JArr fs)"
      by (cases "name = n") (auto simp: mergedGroups_def)
  qed
  moreover have "fieldsOf a = fs" using a by (simp add: fieldsOf_def)
  ultimately show ?thesis
    using step ma mm a by (intro exI [of _ ?acc] exI [of _ ?m]) simp
qed

lemma efold_mergeGroup:
  assumes "list_all (\<lambda>entry. groupAttributes (snd entry)) entries" and "mergedGroups acc"
  shows "\<exists>t. efold mergeGroup entries acc = Inr t \<and> mergedGroups t \<and>
           (\<forall>name. case contributions name entries of
                      [] \<Rightarrow> map_of t name = map_of acc name
                    | c # cs \<Rightarrow>
                        (\<exists>m. map_of t name = Some (JObj m) \<and>
                           map_of m ''fields'' =
                             Some (JArr (accumulatedFields acc name @ concat (map fieldsOf (c # cs)))) \<and>
                           (\<forall>k. k \<noteq> ''fields'' \<longrightarrow>
                                map_of m k = map_of (own_props (last (c # cs))) k)))"
  using assms
proof (induction entries arbitrary: acc)
  case Nil
  then show ?case by (simp add: contributions_def)
next
  case (Cons e es)
  obtain n a where e: "e = (n, a)" by (cases e)
  from Cons.prems e have ga: "groupAttributes a"
    and rest: "list_all (\<lambda>entry. groupAttributes (snd entry)) es" by auto
  from mergeGroup_step [OF Cons.prems(2) ga, of n] obtain acc' m where
    step: "mergeGroup acc (n, a) = Inr acc'" and inv: "mergedGroups acc'" and
    other: "\<And>name. name \<noteq> n \<Longrightarrow> map_of acc' name = map_of acc name" and
    here: "map_of acc' n = Some (JObj m)"
      "map_of m ''fields'' = Some (JArr (accumulatedFields acc n @ fieldsOf a))"
      "\<And>k. k \<noteq> ''fields'' \<Longrightarrow> map_of m k = map_of (own_props a) k"
    by blast
  from Cons.IH [OF rest inv] obtain t where
    t: "efold mergeGroup es acc' = Inr t" "mergedGroups t" and
    post: "\<And>name. case contributions name es of
                      [] \<Rightarrow> map_of t name = map_of acc' name
                    | c # cs \<Rightarrow>
                        (\<exists>m. map_of t name = Some (JObj m) \<and>
                           map_of m ''fields'' =
                             Some (JArr (accumulatedFields acc' name @ concat (map fieldsOf (c # cs)))) \<and>
                           (\<forall>k. k \<noteq> ''fields'' \<longrightarrow>
                                map_of m k = map_of (own_props (last (c # cs))) k))"
    by blast
  have af: "accumulatedFields acc' n = accumulatedFields acc n @ fieldsOf a"
    using here by (simp add: accumulatedFields_def fieldsOf_def)
  have ao: "accumulatedFields acc' name = accumulatedFields acc name" if "name \<noteq> n" for name
    using other [OF that] by (simp add: accumulatedFields_def)
  have "case contributions name (e # es) of
          [] \<Rightarrow> map_of t name = map_of acc name
        | c # cs \<Rightarrow>
            (\<exists>m. map_of t name = Some (JObj m) \<and>
               map_of m ''fields'' =
                 Some (JArr (accumulatedFields acc name @ concat (map fieldsOf (c # cs)))) \<and>
               (\<forall>k. k \<noteq> ''fields'' \<longrightarrow>
                    map_of m k = map_of (own_props (last (c # cs))) k))" for name
  proof (cases "name = n")
    case True
    show ?thesis
    proof (cases "contributions n es")
      case Nil
      with post [of n] here True e show ?thesis
        by (simp add: contributions_def)
    next
      case (Cons c cs)
      with post [of n] af True e show ?thesis
        by (auto simp: contributions_def)
    qed
  next
    case False
    with post [of name] other [of name] ao [of name] e show ?thesis
      by (auto simp: contributions_def split: list.splits)
  qed
  with t step e show ?case by auto
qed

lemma efold_formatGroups:
  assumes "\<forall>f \<in> set fragments. groupFragment f"
  shows "efold formatGroups fragments acc =
           efold mergeGroup (concat (map (\<lambda>f. own_props (js_prop f ''group'')) fragments)) acc"
  using assms
proof (induction fragments arbitrary: acc)
  case Nil
  show ?case by simp
next
  case (Cons f fs)
  from Cons.prems have f: "groupFragment f" and fs: "\<forall>f \<in> set fs. groupFragment f" by auto
  from f have "formatGroups acc f = efold mergeGroup (own_props (js_prop f ''group'')) acc"
    by (auto simp: groupFragment_def formatGroups_def get_def object_entries_def nullish_def
        split: jsval.splits)
  moreover have "efold formatGroups fs =
      efold mergeGroup (concat (map (\<lambda>f. own_props (js_prop f ''group'')) fs))"
    using Cons.IH [OF fs] by (intro ext)
  ultimately show ?case by (simp add: efold_append)
qed

lemma groupFragment_entries:
  assumes "\<forall>f \<in> set fragments. groupFragment f"
  shows "list_all (\<lambda>entry. groupAttributes (snd entry))
           (concat (map (\<lambda>f. own_props (js_prop f ''group'')) fragments))"
  using assms
  by (induction fragments) (auto simp: groupFragment_def split: jsval.splits)

text \<open>A fragment without a \<^verbatim>\<open>group\<close> attribute makes the stage throw: \<^verbatim>\<open>formatGroups\<close>
  hands \<^verbatim>\<open>undefined\<close> to \<^verbatim>\<open>Object.entries\<close>.\<close>

lemma to_string_error:
  "to_string v = Inl e \<Longrightarrow> e = TypeError"
  "to_strings vs = Inl e \<Longrightarrow> e = TypeError"
  by (induction v and vs rule: to_string_to_strings.induct)
    (auto simp: ebind_Inl_iff split: if_splits)

lemma mergeGroup_error: "mergeGroup acc entry = Inl e \<Longrightarrow> e = TypeError"
proof -
  obtain name attributes where entry: "entry = (name, attributes)" by (cases entry)
  have c: "js_concat a b = Inl e \<Longrightarrow> e = TypeError" for a b
    by (cases a) (auto simp: ebind_Inl_iff dest: to_string_error)
  assume "mergeGroup acc entry = Inl e"
  with entry c show ?thesis
    by (auto simp: mergeGroup_def get_def ebind_Inl_iff split: if_splits)
qed

lemma efold_mergeGroup_error: "efold mergeGroup entries acc = Inl e \<Longrightarrow> e = TypeError"
  by (induction entries arbitrary: acc) (auto simp: ebind_Inl_iff dest: mergeGroup_error)

lemma formatGroups_error: "formatGroups state fragment = Inl e \<Longrightarrow> e = TypeError"
  by (auto simp: formatGroups_def get_def object_entries_def ebind_Inl_iff
      dest: efold_mergeGroup_error split: if_splits)

lemma formatGroups_missing_group:
  "nullish (js_prop fragment ''group'') \<Longrightarrow> formatGroups state fragment = Inl TypeError"
  by (simp add: formatGroups_def get_def object_entries_def)

lemma composeGroup_missing_group:
  assumes "fragment \<in> set fragments" and "nullish (js_prop fragment ''group'')"
  shows "composeGroup (JObj [(''rawCommands'', JArr fragments)]) = Inl TypeError"
proof -
  have "efold formatGroups fragments state = Inl TypeError" for state
    using assms(1)
  proof (induction fragments arbitrary: state)
    case Nil
    then show ?case by simp
  next
    case (Cons x xs)
    show ?case
    proof (cases "formatGroups state x")
      case (Inl e)
      with formatGroups_error [OF Inl] show ?thesis by simp
    next
      case (Inr state')
      with formatGroups_missing_group [OF assms(2), of state] have "x \<noteq> fragment" by auto
      with Cons.prems have "fragment \<in> set xs" by simp
      from Cons.IH [OF this] Inr show ?thesis by simp
    qed
  qed
  then show ?thesis by (simp add: composeGroup_def get_def nullish_def)
qed

text \<open>
  Claim C7. When every fragment carries a \<^verbatim>\<open>group\<close> object, group-merge gives every
  declared group the concatenation, in collector order, of all the \<^verbatim>\<open>fields\<close> sequences
  contributed for it, and the other attributes of the last fragment that contributes to
  it; a group that no fragment declares is not in the table.

  The claim speaks of every fragment sequence, and a fragment need not have a \<^verbatim>\<open>group\<close>:
  each of the three attributes of a raw fragment is optional. There the stage does not
  merge at all. For the sequence of a fragment that contributes to \<^verbatim>\<open>g\<close>, a fragment
  with only an \<^verbatim>\<open>add\<close>, and a second fragment that contributes to \<^verbatim>\<open>g\<close>, the stages
  \<^verbatim>\<open>composeCommand\<close> and \<^verbatim>\<open>composeRemove\<close> return, having skipped the attributes that are
  absent, and \<^verbatim>\<open>composeGroup\<close> throws a TypeError (\<open>composeGroup_missing_group\<close>), which
  leaves the handler: no group table is produced although \<^verbatim>\<open>g\<close> is declared twice.
\<close>

theorem composeGroup_concatenates_fields:
  assumes "\<forall>fragment \<in> set fragments. groupFragment fragment"
  shows "\<exists>composed table.
           composeGroup (JObj [(''rawCommands'', JArr fragments)]) = Inr composed \<and>
           js_prop composed ''group'' = JObj table \<and>
           (\<forall>name. case groupContributions name fragments of
                      [] \<Rightarrow> map_of table name = None
                    | c # cs \<Rightarrow>
                        (\<exists>merged. map_of table name = Some (JObj merged) \<and>
                           map_of merged ''fields'' = Some (JArr (concat (map fieldsOf (c # cs)))) \<and>
                           (\<forall>k. k \<noteq> ''fields'' \<longrightarrow>
                                map_of merged k = map_of (own_props (last (c # cs))) k)))"
proof -
  have "mergedGroups []" by (simp add: mergedGroups_def)
  from efold_mergeGroup [OF groupFragment_entries [OF assms] this]
  obtain t where t: "efold formatGroups fragments [] = Inr t" and
    post: "\<forall>name. case groupContributions name fragments of
                      [] \<Rightarrow> map_of t name = map_of [] name
                    | c # cs \<Rightarrow>
                        (\<exists>m. map_of t name = Some (JObj m) \<and>
                           map_of m ''fields'' =
                             Some (JArr (accumulatedFields [] name @ concat (map fieldsOf (c # cs)))) \<and>
                           (\<forall>k. k \<noteq> ''fields'' \<longrightarrow>
                                map_of m k = map_of (own_props (last (c # cs))) k))"
    unfolding efold_formatGroups [OF assms] groupContributions_def by blast
  have empty: "accumulatedFields [] name = []" for name
    by (simp add: accumulatedFields_def)
  have "composeGroup (JObj [(''rawCommands'', JArr fragments)]) =
          Inr (JObj (obj_put ''group'' (JObj t) (spread_into [] (JObj [(''rawCommands'', JArr fragments)]))))"
    using t by (simp add: composeGroup_def get_def nullish_def)
  moreover have "js_prop (JObj (obj_put ''group'' (JObj t)
        (spread_into [] (JObj [(''rawCommands'', JArr fragments)])))) ''group'' = JObj t"
    by simp
  moreover have "case groupContributions name fragments of
          [] \<Rightarrow> map_of t name = None
        | c # cs \<Rightarrow>
            (\<exists>merged. map_of t name = Some (JObj merged) \<and>
               map_of merged ''fields'' = Some (JArr (concat (map fieldsOf (c # cs)))) \<and>
               (\<forall>k. k \<noteq> ''fields'' \<longrightarrow>
                    map_of merged k = map_of (own_props (last (c # cs))) k))" for name
    using post [rule_format, of name]
    by (cases "groupContributions name fragments") (simp_all add: empty)
  ultimately show ?thesis by blast
qed

theorem composeGroup_concatenates_fields_witness:
  "groupFragment first_g_fragment \<and> groupFragment second_g_fragment \<and>
   (\<exists>composed table merged.
      composeGroup (JObj [(''rawCommands'', JArr [first_g_fragment, second_g_fragment])]) = Inr composed \<and>
      js_prop composed ''group'' = JObj table \<and>
      map_of table ''g'' = Some (JObj merged) \<and>
      map_of merged ''fields'' = Some (JArr [JStr ''a'', JStr ''b'']) \<and>
      map_of merged ''label'' = Some (JStr ''L2''))"
proof -
  have h: "\<forall>fragment \<in> set [first_g_fragment, second_g_fragment]. groupFragment fragment"
    by (simp add: groupFragment_def groupAttributes_def first_g_fragment_def second_g_fragment_def
        nullish_def)
  have c: "groupContributions ''g'' [first_g_fragment, second_g_fragment] =
      [JObj [(''label'', JStr ''L1''), (''fields'', JArr [JStr ''a''])],
       JObj [(''label'', JStr ''L2''), (''fields'', JArr [JStr ''b''])]]"
    by (simp add: groupContributions_def contributions_def first_g_fragment_def second_g_fragment_def)
  from composeGroup_concatenates_fields [OF h] obtain composed table where
    1: "composeGroup (JObj [(''rawCommands'', JArr [first_g_fragment, second_g_fragment])]) = Inr composed"
      "js_prop composed ''group'' = JObj table" and
    2: "\<And>name. case groupContributions name [first_g_fragment, second_g_fragment] of
                      [] \<Rightarrow> map_of table name = None
                    | c # cs \<Rightarrow>
                        (\<exists>merged. map_of table name = Some (JObj merged) \<and>
                           map_of merged ''fields'' = Some (JArr (concat (map fieldsOf (c # cs)))) \<and>
                           (\<forall>k. k \<noteq> ''fields'' \<longrightarrow>
                                map_of merged k = map_of (own_props (last (c # cs))) k))"
    by blast
  from 2 [of "''g''"] c obtain merged where
    "map_of table ''g'' = Some (JObj merged)"
    "map_of merged ''fields'' = Some (JArr [JStr ''a'', JStr ''b''])"
    "map_of merged ''label'' = Some (JStr ''L2'')"
    by (auto simp: fieldsOf_def)
  with 1 h show ?thesis by simp
qed

theorem composeGroup_missing_group_counterexample:
  "\<not> isl (composeCommand (JObj [(''rawCommands'', JArr [first_g_fragment, first_x_fragment, second_g_fragment])])) \<and>
   \<not> isl (composeRemove (JObj [(''rawCommands'', JArr [first_g_fragment, first_x_fragment, second_g_fragment])])) \<and>
   length (groupContributions ''g'' [first_g_fragment, first_x_fragment, second_g_fragment]) = 2 \<and>
   composeGroup (JObj [(''rawCommands'', JArr [first_g_fragment, first_x_fragment, second_g_fragment])]) =
     Inl TypeError \<and>
   composeCommands [first_g_fragment, first_x_fragment, second_g_fragment] initial_menu =
     (Thrown TypeError,
      initial_menu\<lparr>rawCommands := JArr [first_g_fragment, first_x_fragment, second_g_fragment]\<rparr>)"
  by code_simp

subsection \<open>Visible commands and groups\<close>

lemma index_of_0 [simp]: "index_of ''0'' = Some 0"
  by (simp add: index_of_def is_digit_def read_int_def show_int_def show_nat.simps digit_char_def)

lemma index_of_1 [simp]: "index_of ''1'' = Some 1"
  by (simp add: index_of_def is_digit_def read_int_def show_int_def show_nat.simps digit_char_def)

lemma entry_put_empty [simp]:
  "entry_put acc (JArr []) = Inr (obj_put ''undefined'' JUndefined acc)"
  by (simp add: entry_put_def)

lemma entry_put_pair [simp]:
  "entry_put acc (JArr [JStr k, v]) = Inr (obj_put k v acc)"
  by (simp add: entry_put_def)








subsection \<open>Modal view\<close>

lemma spread_into_undefined [simp]: "spread_into acc JUndefined = acc"
  by (simp add: spread_into_def)





















subsection \<open>Browser data\<close>

text \<open>
  Claim C8. For a request without a user the payload is the boolean \<^verbatim>\<open>false\<close>, in every
  module state. For a request with a user, \<^verbatim>\<open>getBrowserData\<close> throws what \<^verbatim>\<open>getVisible\<close>
  throws; when \<^verbatim>\<open>getVisible\<close> returns, it throws a TypeError if \<^verbatim>\<open>options.components\<close> is
  \<^verbatim>\<open>undefined\<close> or \<^verbatim>\<open>null\<close>, and otherwise returns \<^verbatim>\<open>{ components: { the }, groups, modals }\<close>
  with the groups and modals of \<^verbatim>\<open>getVisible\<close>, where \<^verbatim>\<open>the\<close> is the configured component
  name or the default \<^verbatim>\<open>'TheAposCommandMenu'\<close>: a string if and only if the configured
  name is a string or is falsy.

  The claim that every authenticated request receives a payload of that shape fails, and
  it fails for a registry that every rule of the validator accepts. The cycle over
  \<open>undefined_field_fragment\<close> publishes. Its command \<^verbatim>\<open>doc:save\<close> is removed, for which the
  \<^verbatim>\<open>map\<close> of \<^verbatim>\<open>getVisible\<close> yields the entry \<^verbatim>\<open>[]\<close>, which \<^verbatim>\<open>Object.fromEntries\<close> turns into
  the property \<^verbatim>\<open>undefined: undefined\<close> (in \<^verbatim>\<open>getVisibleGroups\<close> the same idiom is followed
  by a \<^verbatim>\<open>filter\<close>). The group lists the field name \<^verbatim>\<open>undefined\<close>, finds that property, and
  the modal view throws on \<^verbatim>\<open>field.modal\<close>. Every authenticated request gets the TypeError,
  under every permission oracle and every host.
\<close>

theorem getBrowserData_payload:
  "(\<not> truthy (user req) \<longrightarrow> getBrowserData host can self req = Inr (JBool False, None)) \<and>
   (truthy (user req) \<longrightarrow>
      (\<forall>e. getVisible host can self req = Inl e \<longrightarrow> getBrowserData host can self req = Inl e) \<and>
      (\<forall>visible prototype.
         getVisible host can self req = Inr (visible, prototype) \<and> nullish (components self) \<longrightarrow>
         getBrowserData host can self req = Inl TypeError) \<and>
      (\<forall>visible prototype.
         getVisible host can self req = Inr (visible, prototype) \<and> \<not> nullish (components self) \<longrightarrow>
         (\<exists>name visibleGroups visibleModals.
            getBrowserData host can self req =
              Inr (JObj [(''components'', JObj [(''the'', name)]),
                         (''groups'', JObj visibleGroups), (''modals'', JObj visibleModals)],
                   prototype) \<and>
            visible = JObj [(''groups'', JObj visibleGroups), (''modals'', JObj visibleModals)] \<and>
            name = js_or (js_prop (components self) ''the'') (JStr ''TheAposCommandMenu'') \<and>
            (typeof name = ''string'' \<longleftrightarrow>
               typeof (js_prop (components self) ''the'') = ''string'' \<or>
               \<not> truthy (js_prop (components self) ''the'')))))"
proof -
  have "typeof (js_or v (JStr ''TheAposCommandMenu'')) = ''string'' \<longleftrightarrow>
        typeof v = ''string'' \<or> \<not> truthy v" for v
    by (cases v) (auto simp: js_or_def)
  then show ?thesis
    by (auto simp: getBrowserData_def getVisible_def ebind_Inr_iff get_def split: prod.splits)
qed

theorem getBrowserData_payload_witness:
  "getBrowserData example_host draft_only published_menu anonymous_req = Inr (JBool False, None) \<and>
   (\<exists>visibleGroups visibleModals.
      getBrowserData example_host draft_only published_menu editor_req =
        Inr (JObj [(''components'', JObj [(''the'', JStr ''TheAposCommandMenu'')]),
                   (''groups'', JObj visibleGroups), (''modals'', JObj visibleModals)],
             None))"
proof -
  let ?r = "getVisible example_host draft_only published_menu editor_req"
  have a: "\<not> truthy (user anonymous_req)" by (simp add: anonymous_req_def)
  have u: "truthy (user editor_req)" by (simp add: editor_req_def)
  have c: "\<not> nullish (components published_menu)" by code_simp
  have t: "js_prop (components published_menu) ''the'' = JUndefined" by code_simp
  have "\<not> isl ?r \<and> snd (projr ?r) = None" by code_simp
  then have v: "?r = Inr (fst (projr ?r), None)"
    by (cases ?r) (auto simp: prod_eq_iff)
  from getBrowserData_payload [of anonymous_req example_host draft_only published_menu] a
  have 1: "getBrowserData example_host draft_only published_menu anonymous_req = Inr (JBool False, None)"
    by blast
  from getBrowserData_payload [of editor_req example_host draft_only published_menu] u
  have "\<forall>visible prototype.
         getVisible example_host draft_only published_menu editor_req = Inr (visible, prototype) \<and>
         \<not> nullish (components published_menu) \<longrightarrow>
         (\<exists>name visibleGroups visibleModals.
            getBrowserData example_host draft_only published_menu editor_req =
              Inr (JObj [(''components'', JObj [(''the'', name)]),
                         (''groups'', JObj visibleGroups), (''modals'', JObj visibleModals)],
                   prototype) \<and>
            visible = JObj [(''groups'', JObj visibleGroups), (''modals'', JObj visibleModals)] \<and>
            name = js_or (js_prop (components published_menu) ''the'') (JStr ''TheAposCommandMenu'') \<and>
            (typeof name = ''string'' \<longleftrightarrow>
               typeof (js_prop (components published_menu) ''the'') = ''string'' \<or>
               \<not> truthy (js_prop (components published_menu) ''the'')))"
    by blast
  with v c obtain name visibleGroups visibleModals where
    "getBrowserData example_host draft_only published_menu editor_req =
       Inr (JObj [(''components'', JObj [(''the'', name)]),
                  (''groups'', JObj visibleGroups), (''modals'', JObj visibleModals)], None)"
    "name = js_or (js_prop (components published_menu) ''the'') (JStr ''TheAposCommandMenu'')"
    by blast
  with t 1 show ?thesis by (auto simp: js_or_def)
qed

theorem getBrowserData_throws_counterexample:
  "fst (composeCommands [undefined_field_fragment] initial_menu) = Published \<and>
   validateCommand ''doc:save'' (js_prop (commands undefined_field_menu) ''doc:save'') = Inr True \<and>
   validateGroup ''doc:general'' (js_prop (groups undefined_field_menu) ''doc:general'') = Inr True \<and>
   map fst (own_props (commands undefined_field_menu)) = [''doc:save''] \<and>
   map fst (own_props (groups undefined_field_menu)) = [''doc:general''] \<and>
   truthy (user editor_req) \<and>
   (\<forall>host can. getBrowserData host can undefined_field_menu editor_req = Inl TypeError)"
proof -
  have m: "removes undefined_field_menu = JArr [JStr ''doc:save'']"
    "commands undefined_field_menu = JObj [(''doc:save'', valid_command)]"
    "groups undefined_field_menu =
       JObj [(''doc:general'', JObj [(''label'', JStr ''General''),
                                      (''fields'', JArr [JStr ''undefined''])])]"
    by code_simp+
  have v: "visibleCommands can undefined_field_menu editor_req = Inr [(''undefined'', JUndefined)]"
    for can
    by (simp add: visibleCommands_def object_entries_def nullish_def m visibleEntry_def
        from_entries_def obj_put_def index_of_def)
  have g: "getVisibleGroups undefined_field_menu [(''undefined'', JUndefined)] =
      Inr [(''doc:general'', JObj [(''label'', JStr ''General''),
             (''fields'', JObj [(''undefined'', JUndefined)])])]"
    by code_simp
  have t: "getVisibleModals host undefined_field_menu [(''undefined'', JUndefined)] = Inl TypeError"
    for host
    by (simp add: getVisibleModals_def g modalGroup_def get_def nullish_def object_entries_def
        modalStep_def)
  have u: "truthy (user editor_req)" by (simp add: editor_req_def)
  have "getBrowserData host can undefined_field_menu editor_req = Inl TypeError" for host can
    by (simp add: getBrowserData_def getVisible_def u v g t)
  moreover have "fst (composeCommands [undefined_field_fragment] initial_menu) = Published \<and>
   validateCommand ''doc:save'' (js_prop (commands undefined_field_menu) ''doc:save'') = Inr True \<and>
   validateGroup ''doc:general'' (js_prop (groups undefined_field_menu) ''doc:general'') = Inr True \<and>
   map fst (own_props (commands undefined_field_menu)) = [''doc:save''] \<and>
   map fst (own_props (groups undefined_field_menu)) = [''doc:general''] \<and>
   truthy (user editor_req)"
    by code_simp
  ultimately show ?thesis by blast
qed

subsection \<open>Store: moving addresses\<close>

lemma sh_old: "old n v \<Longrightarrow> sh n d v = v"
  by (cases v) (auto simp: old_def sh_def mv_def)

lemma sh_HRef [simp]: "sh n d (HRef a) = HRef (mv n d a)"
  by (simp add: sh_def)

lemma mv_less_iff [simp]: "mv n d b < mv n d a \<longleftrightarrow> b < a"
  by (auto simp: mv_def)

lemma mv_fresh: "n \<le> a \<Longrightarrow> mv n d a = a + d"
  by (simp add: mv_def)

lemma sh_HPrim [simp]: "sh n d (HPrim j) = HPrim j"
  by (simp add: sh_def)

lemma sh_zero [simp]: "sh n 0 v = v"
  by (cases v) (auto simp: sh_def mv_def)

lemma htruthy_sh [simp]: "htruthy (sh n d v) = htruthy v"
  by (cases v) (auto simp: htruthy_def sh_def)

lemma hnullish_sh [simp]: "hnullish (sh n d v) = hnullish v"
  by (cases v) (auto simp: hnullish_def sh_def)

lemma hor_sh: "hor (sh n d a) (sh n d b) = sh n d (hor a b)"
  by (simp add: hor_def)

lemma replace_prop_map:
  "replace_prop k (f v) (map (apsnd f) kvs) = map (apsnd f) (replace_prop k v kvs)"
  by (induction kvs) auto

lemma insert_index_map:
  "insert_index n k (f v) (map (apsnd f) kvs) = map (apsnd f) (insert_index n k v kvs)"
  by (induction kvs) (auto split: option.splits)

lemma obj_put_map:
  "obj_put k (f v) (map (apsnd f) kvs) = map (apsnd f) (obj_put k v kvs)"
  by (auto simp: obj_put_def replace_prop_map insert_index_map image_iff split: option.splits)

lemma fold_obj_put_map:
  "fold (\<lambda>(k, x). obj_put k x) (map (apsnd f) ps) (map (apsnd f) acc) =
     map (apsnd f) (fold (\<lambda>(k, x). obj_put k x) ps acc)"
  by (induction ps arbitrary: acc) (auto simp: obj_put_map)

lemma indexed_from_map:
  "indexed_from i (map f xs) = map (apsnd f) (indexed_from i xs)"
  by (induction xs arbitrary: i) auto

lemma closed_cell:
  assumes "closed pre" and "a < length pre"
  shows "shc (length pre) d (pre ! a) = pre ! a"
    and "list_all (old (length pre)) (cell_vals (pre ! a))"
proof -
  from assms show o: "list_all (old (length pre)) (cell_vals (pre ! a))"
    by (simp add: closed_def list_all_length)
  then have "\<forall>v \<in> set (cell_vals (pre ! a)). sh (length pre) d v = v"
    by (simp add: list_all_iff sh_old)
  then show "shc (length pre) d (pre ! a) = pre ! a"
    by (cases "pre ! a") (auto simp: shc_def cell_vals_def map_idI apsnd_def map_prod_def split_beta)
qed

text \<open>The cell that a moved reference finds in the moved store.\<close>

lemma moved_cell:
  assumes "closed pre"
  shows "mv (length pre) (length ext) a <
           length (pre @ ext @ map (shc (length pre) (length ext)) new) \<longleftrightarrow>
         a < length (pre @ new)"
    and "a < length (pre @ new) \<Longrightarrow>
         (pre @ ext @ map (shc (length pre) (length ext)) new) ! mv (length pre) (length ext) a =
         shc (length pre) (length ext) ((pre @ new) ! a)"
proof -
  show "mv (length pre) (length ext) a <
           length (pre @ ext @ map (shc (length pre) (length ext)) new) \<longleftrightarrow>
         a < length (pre @ new)"
    by (auto simp: mv_def)
  assume a: "a < length (pre @ new)"
  show "(pre @ ext @ map (shc (length pre) (length ext)) new) ! mv (length pre) (length ext) a =
         shc (length pre) (length ext) ((pre @ new) ! a)"
  proof (cases "a < length pre")
    case True
    with closed_cell(1) [OF assms True] show ?thesis by (simp add: nth_append mv_def)
  next
    case False
    then have e: "a + length ext = length pre + (length ext + (a - length pre))"
      and n: "a = length pre + (a - length pre)" by simp_all
    from a False have l: "a - length pre < length new" by simp
    have "(pre @ ext @ map (shc (length pre) (length ext)) new) ! (a + length ext) =
          map (shc (length pre) (length ext)) new ! (a - length pre)"
      unfolding e nth_append_length_plus ..
    also have "\<dots> = shc (length pre) (length ext) (new ! (a - length pre))"
      using l by simp
    also have "new ! (a - length pre) = (pre @ new) ! a"
      using nth_append_length_plus [of pre new "a - length pre"] n by simp
    finally show ?thesis using False by (simp add: mv_def)
  qed
qed

text \<open>What a read at a moved address finds.\<close>

lemma moved_read:
  assumes "closed pre"
  shows "(if mv (length pre) (length ext) a < length (pre @ ext @ map (shc (length pre) (length ext)) new)
          then f ((pre @ ext @ map (shc (length pre) (length ext)) new) ! mv (length pre) (length ext) a)
          else g) =
         (if a < length (pre @ new) then f (shc (length pre) (length ext) ((pre @ new) ! a)) else g)"
  using moved_cell [OF assms, where a=a and ext=ext and new=new] by (simp del: length_append)

lemma hprops_sh:
  assumes "closed pre"
  shows "hprops (pre @ ext @ map (shc (length pre) (length ext)) new) (sh (length pre) (length ext) v) =
         map (apsnd (sh (length pre) (length ext))) (hprops (pre @ new) v)"
proof (cases v)
  case (HPrim j)
  then show ?thesis by (simp add: hprops_def split_beta apsnd_def map_prod_def)
next
  case (HRef a)
  have "hprops (pre @ ext @ map (shc (length pre) (length ext)) new) (HRef (mv (length pre) (length ext) a)) =
        (if a < length (pre @ new)
         then (case shc (length pre) (length ext) ((pre @ new) ! a) of
                 CObj kvs \<Rightarrow> kvs | CArr xs \<Rightarrow> indexed_from 0 xs)
         else [])"
    unfolding hprops_def hval.case by (rule moved_read [OF assms])
  also have "\<dots> = map (apsnd (sh (length pre) (length ext))) (hprops (pre @ new) (HRef a))"
    by (cases "(pre @ new) ! a") (simp_all add: hprops_def shc_def indexed_from_map)
  finally show ?thesis using HRef by simp
qed

lemma map_of_apsnd: "map_of (map (apsnd f) kvs) k = map_option f (map_of kvs k)"
  by (induction kvs) auto

lemma hprop_sh:
  assumes "closed pre"
  shows "hprop (pre @ ext @ map (shc (length pre) (length ext)) new) (sh (length pre) (length ext) v) k =
         sh (length pre) (length ext) (hprop (pre @ new) v k)"
proof (cases v)
  case (HPrim j)
  then show ?thesis by (simp add: hprop_def)
next
  case (HRef a)
  have "hprop (pre @ ext @ map (shc (length pre) (length ext)) new) (HRef (mv (length pre) (length ext) a)) k =
        (if a < length (pre @ new)
         then (case shc (length pre) (length ext) ((pre @ new) ! a) of
                  CObj kvs \<Rightarrow> (case map_of kvs k of Some x \<Rightarrow> x | None \<Rightarrow> HPrim JUndefined)
                | CArr xs \<Rightarrow>
                    if k = ''length'' then HPrim (JNum (of_nat (length xs)))
                    else (case index_of k of
                            Some n \<Rightarrow> if n < length xs then xs ! n else HPrim JUndefined
                          | None \<Rightarrow> HPrim JUndefined))
         else HPrim JUndefined)"
    unfolding hprop_def hval.case by (rule moved_read [OF assms])
  also have "\<dots> = sh (length pre) (length ext) (hprop (pre @ new) (HRef a) k)"
    by (cases "(pre @ new) ! a")
      (auto simp: hprop_def shc_def map_of_apsnd simp del: sh_HRef split: option.splits)
  finally show ?thesis using HRef by simp
qed

lemma hopt_get_sh:
  assumes "closed pre"
  shows "hopt_get (pre @ ext @ map (shc (length pre) (length ext)) new) (sh (length pre) (length ext) v) k =
         sh (length pre) (length ext) (hopt_get (pre @ new) v k)"
  by (simp add: hopt_get_def hprop_sh [OF assms])

declare hstring.simps [simp del] hstrings.simps [simp del]

lemma mv_eq_iff [simp]: "mv n d a = mv n d b \<longleftrightarrow> a = b"
  by (auto simp: mv_def)

lemma mv_mem_iff [simp]: "mv n d a \<in> mv n d ` A \<longleftrightarrow> a \<in> A"
  by auto

lemma hstring_sh_joining:
  assumes "closed pre" and "h = pre @ new"
  shows "hstring (pre @ ext @ map (shc (length pre) (length ext)) new)
           (map (mv (length pre) (length ext)) joining) (sh (length pre) (length ext) v) =
         hstring h joining v"
    and "hstrings (pre @ ext @ map (shc (length pre) (length ext)) new)
           (map (mv (length pre) (length ext)) joining) (map (sh (length pre) (length ext)) xs) =
         hstrings h joining xs"
  using assms(2)
proof (induction h joining v and h joining xs rule: hstring_hstrings.induct)
  case (1 h joining j)
  show ?case by (simp add: hstring.simps)
next
  case (2 h joining a)
  let ?n = "length pre" and ?d = "length ext"
  let ?h' = "pre @ ext @ map (shc (length pre) (length ext)) new"
  note h = \<open>h = pre @ new\<close>
  have "hstring ?h' (map (mv ?n ?d) joining) (HRef (mv ?n ?d a)) =
        (if a < length (pre @ new)
         then (case shc ?n ?d ((pre @ new) ! a) of
                 CObj kvs \<Rightarrow>
                   if ''toString'' \<in> set (map fst kvs) then Inl TypeError
                   else Inr ''[object Object]''
               | CArr xs \<Rightarrow>
                   if mv ?n ?d a \<in> set (map (mv ?n ?d) joining) then Inr []
                   else ebind (hstrings ?h' (mv ?n ?d a # map (mv ?n ?d) joining) xs)
                          (\<lambda>ss. Inr (join_with '','' ss)))
         else Inr ''[object Object]'')"
    by (subst hstring.simps) (rule moved_read [OF assms(1)])
  then have l: "hstring ?h' (map (mv ?n ?d) joining) (HRef (mv ?n ?d a)) =
        (if a < length h
         then (case shc ?n ?d (h ! a) of
                 CObj kvs \<Rightarrow>
                   if ''toString'' \<in> set (map fst kvs) then Inl TypeError
                   else Inr ''[object Object]''
               | CArr xs \<Rightarrow>
                   if mv ?n ?d a \<in> set (map (mv ?n ?d) joining) then Inr []
                   else ebind (hstrings ?h' (mv ?n ?d a # map (mv ?n ?d) joining) xs)
                          (\<lambda>ss. Inr (join_with '','' ss)))
         else Inr ''[object Object]'')"
    unfolding h [symmetric] .
  have r: "hstring h joining (HRef a) =
        (if a < length h
         then (case h ! a of
                 CObj kvs \<Rightarrow>
                   if ''toString'' \<in> set (map fst kvs) then Inl TypeError
                   else Inr ''[object Object]''
               | CArr xs \<Rightarrow>
                   if a \<in> set joining then Inr []
                   else ebind (hstrings h (a # joining) xs) (\<lambda>ss. Inr (join_with '','' ss)))
         else Inr ''[object Object]'')"
    by (rule hstring.simps)
  have "hstring ?h' (map (mv ?n ?d) joining) (HRef (mv ?n ?d a)) = hstring h joining (HRef a)"
  proof (cases "a < length h")
    case False
    then show ?thesis unfolding l r by simp
  next
    case True
    show ?thesis
    proof (cases "h ! a")
      case (CObj kvs)
      with True show ?thesis
        unfolding l r by (simp add: shc_def o_def split_beta)
    next
      case (CArr xs)
      show ?thesis
      proof (cases "a \<in> set joining")
        case True
        with \<open>a < length h\<close> CArr show ?thesis
          unfolding l r by (simp add: shc_def)
      next
        case False
        from "2.IH" [OF \<open>a < length h\<close> CArr False h]
        have "hstrings ?h' (mv ?n ?d a # map (mv ?n ?d) joining) (map (sh ?n ?d) xs) =
              hstrings h (a # joining) xs"
          by simp
        with \<open>a < length h\<close> CArr False show ?thesis
          unfolding l r by (simp add: shc_def)
      qed
    qed
  qed
  then show ?case by simp
next
  case (3 h joining)
  show ?case by (simp add: hstrings.simps)
next
  case (4 h joining x xs)
  from "4.IH"(1) "4.prems"
  have 1: "\<not> hnullish x \<Longrightarrow>
        hstring (pre @ ext @ map (shc (length pre) (length ext)) new)
          (map (mv (length pre) (length ext)) joining) (sh (length pre) (length ext) x) =
        hstring h joining x"
    by simp
  from "4.IH"(2) "4.prems"
  have 2: "hstrings (pre @ ext @ map (shc (length pre) (length ext)) new)
          (map (mv (length pre) (length ext)) joining) (map (sh (length pre) (length ext)) xs) =
        hstrings h joining xs"
    by simp
  show ?case
    by (cases "hnullish x") (simp_all add: hstrings.simps 1 2)
qed

lemma hstring_sh:
  assumes "closed pre"
  shows "hstring (pre @ ext @ map (shc (length pre) (length ext)) new) []
           (sh (length pre) (length ext) v) =
         hstring (pre @ new) [] v"
  using hstring_sh_joining(1) [OF assms refl, where joining="[]"] by simp

lemma hown_sh:
  assumes "closed pre"
  shows "hown (pre @ ext @ map (shc (length pre) (length ext)) new) (sh (length pre) (length ext) v) k =
         map_option (sh (length pre) (length ext)) (hown (pre @ new) v k)"
proof (cases v)
  case (HPrim j)
  then show ?thesis by (simp add: hown_def option.map_comp o_def)
next
  case (HRef a)
  have "hown (pre @ ext @ map (shc (length pre) (length ext)) new) (HRef (mv (length pre) (length ext) a)) k =
        (if a < length (pre @ new)
         then (case shc (length pre) (length ext) ((pre @ new) ! a) of
                  CObj kvs \<Rightarrow> map_of kvs k
                | CArr xs \<Rightarrow>
                    if k = ''length'' then Some (HPrim (JNum (of_nat (length xs))))
                    else (case index_of k of
                            Some n \<Rightarrow> if n < length xs then Some (xs ! n) else None
                          | None \<Rightarrow> None))
         else None)"
    unfolding hown_def hval.case by (rule moved_read [OF assms])
  also have "\<dots> = map_option (sh (length pre) (length ext)) (hown (pre @ new) (HRef a) k)"
    by (cases "(pre @ new) ! a")
      (auto simp: hown_def shc_def map_of_apsnd simp del: sh_HRef split: option.splits)
  finally show ?thesis using HRef by simp
qed

lemma hprototypeOf_sh:
  assumes "closed pre"
  shows "hprototypeOf (pre @ ext @ map (shc (length pre) (length ext)) new)
           (sh (length pre) (length ext) v) =
         hprototypeOf (pre @ new) v"
proof (cases v)
  case (HPrim j)
  then show ?thesis by (simp add: hprototypeOf_def)
next
  case (HRef a)
  have "hprototypeOf (pre @ ext @ map (shc (length pre) (length ext)) new)
          (HRef (mv (length pre) (length ext) a)) =
        (if a < length (pre @ new)
         then (case shc (length pre) (length ext) ((pre @ new) ! a) of
                 CObj kvs \<Rightarrow> ''Object.prototype'' | CArr xs \<Rightarrow> ''Array.prototype'')
         else ''Object.prototype'')"
    unfolding hprototypeOf_def hval.case by (rule moved_read [OF assms])
  also have "\<dots> = hprototypeOf (pre @ new) (HRef a)"
    by (cases "(pre @ new) ! a") (simp_all add: hprototypeOf_def shc_def)
  finally show ?thesis using HRef by simp
qed

lemma sha_pair [simp]:
  "sha n d (target, proto) = (sh n d target, map_option (sh n d) proto)"
  by (simp add: sha_def)

lemma shl_hlook [simp]: "shl n d (hlook r) = hlook r"
  by (cases r) (simp_all add: shl_def hlook_def)

lemma shl_host [simp]: "map_sum id (shl n d) (map_sum id hlook x) = map_sum id hlook x"
  by (cases x) simp_all

lemma hmember_sh:
  assumes "closed pre"
  shows "hmember host (pre @ ext @ map (shc (length pre) (length ext)) new)
           (sh (length pre) (length ext) v) k =
         map_sum id (shl (length pre) (length ext)) (hmember host (pre @ new) v k)"
  by (cases "hown (pre @ new) v k")
    (simp_all add: hmember_def hown_sh [OF assms] hprototypeOf_sh [OF assms] shl_def)

lemma haccMember_sh:
  assumes "closed pre"
  shows "haccMember host (pre @ ext @ map (shc (length pre) (length ext)) new)
           (sha (length pre) (length ext) acc) k =
         map_sum id (shl (length pre) (length ext)) (haccMember host (pre @ new) acc k)"
proof -
  obtain target proto where acc: "acc = (target, proto)" by (cases acc)
  show ?thesis
  proof (cases proto)
    case None
    with acc show ?thesis by (simp add: haccMember_def hmember_sh [OF assms])
  next
    case (Some p)
    with acc show ?thesis
      by (cases "hown (pre @ new) target k"; cases "hown (pre @ new) p k")
        (simp_all add: haccMember_def hown_sh [OF assms] hprototypeOf_sh [OF assms] shl_def)
  qed
qed

lemma hlookedMember_sh:
  assumes "closed pre"
  shows "hlookedMember host (pre @ ext @ map (shc (length pre) (length ext)) new)
           (shl (length pre) (length ext) r) k =
         map_sum id (shl (length pre) (length ext)) (hlookedMember host (pre @ new) r k)"
  by (cases r) (simp_all add: hlookedMember_def shl_def hmember_sh [OF assms])

lemma hlookedFields_sh:
  assumes "closed pre"
  shows "hlookedFields (pre @ ext @ map (shc (length pre) (length ext)) new)
           (shl (length pre) (length ext) r) =
         sh (length pre) (length ext) (hlookedFields (pre @ new) r)"
  by (cases r) (simp_all add: hlookedFields_def shl_def hopt_get_sh [OF assms])

lemma hprop_old:
  assumes "closed pre" and "old (length pre) v"
  shows "old (length pre) (hprop (pre @ new) v k)"
proof (cases v)
  case (HPrim j)
  then show ?thesis by (simp add: hprop_def old_def)
next
  case (HRef a)
  with assms(2) have a: "a < length pre" by (simp add: old_def)
  from closed_cell(2) [OF assms(1) a] have o: "\<forall>x \<in> set (cell_vals (pre ! a)). old (length pre) x"
    by (simp add: list_all_iff)
  show ?thesis
  proof (cases "pre ! a")
    case (CObj kvs)
    show ?thesis
    proof (cases "map_of kvs k")
      case None
      with HRef a CObj show ?thesis by (simp add: hprop_def nth_append old_def)
    next
      case (Some x)
      then have "(k, x) \<in> set kvs" by (rule map_of_SomeD)
      with o CObj have "old (length pre) x" by (force simp: cell_vals_def)
      with HRef a CObj Some show ?thesis by (simp add: hprop_def nth_append)
    qed
  next
    case (CArr xs)
    with o have "\<forall>x \<in> set xs. old (length pre) x" by (simp add: cell_vals_def)
    with HRef a CArr show ?thesis
      by (auto simp: hprop_def nth_append old_def split: option.splits)
  qed
qed

lemma indexed_from_snd: "snd ` set (indexed_from i xs) = set xs"
  by (induction xs arbitrary: i) auto

lemma hprops_old:
  assumes "closed pre" and "old (length pre) v"
  shows "\<forall>(k, x) \<in> set (hprops (pre @ new) v). old (length pre) x"
proof (cases v)
  case (HPrim j)
  then show ?thesis by (auto simp: hprops_def old_def)
next
  case (HRef a)
  with assms(2) have a: "a < length pre" by (simp add: old_def)
  from closed_cell(2) [OF assms(1) a] have o: "\<forall>x \<in> set (cell_vals (pre ! a)). old (length pre) x"
    by (simp add: list_all_iff)
  show ?thesis
  proof (cases "pre ! a")
    case (CObj kvs)
    with o HRef a show ?thesis by (auto simp: hprops_def nth_append cell_vals_def)
  next
    case (CArr xs)
    with o HRef a indexed_from_snd [of 0 xs] show ?thesis
      by (auto simp: hprops_def nth_append cell_vals_def) (metis image_eqI snd_conv)
  qed
qed

subsection \<open>Store: rules for computations\<close>

lemma sim_return: "P x \<Longrightarrow> sim pre ext sa P (hreturn x) (hreturn (sa x))"
  by (simp add: sim_def hreturn_def)

lemma sim_bind:
  assumes "sim pre ext sa P m m'"
    and "\<And>x. P x \<Longrightarrow> sim pre ext sb Q (f x) (f' (sa x))"
  shows "sim pre ext sb Q (hbind m f) (hbind m' f')"
  unfolding sim_def
proof
  fix new
  from assms(1) obtain r new2 where
    1: "m (pre @ new) = (r, pre @ new2)"
       "m' (pre @ ext @ map (shc (length pre) (length ext)) new) =
          (map_sum id sa r, pre @ ext @ map (shc (length pre) (length ext)) new2)"
       "\<forall>x. r = Inr x \<longrightarrow> P x"
    unfolding sim_def by blast
  show "\<exists>r new2.
          hbind m f (pre @ new) = (r, pre @ new2) \<and>
          hbind m' f' (pre @ ext @ map (shc (length pre) (length ext)) new) =
            (map_sum id sb r, pre @ ext @ map (shc (length pre) (length ext)) new2) \<and>
          (\<forall>x. r = Inr x \<longrightarrow> Q x)"
  proof (cases r)
    case (Inl e)
    with 1 show ?thesis by (simp add: hbind_def)
  next
    case (Inr x)
    with 1 have "P x" by simp
    from assms(2) [OF this] obtain r2 new3 where
      "f x (pre @ new2) = (r2, pre @ new3)"
      "f' (sa x) (pre @ ext @ map (shc (length pre) (length ext)) new2) =
          (map_sum id sb r2, pre @ ext @ map (shc (length pre) (length ext)) new3)"
      "\<forall>y. r2 = Inr y \<longrightarrow> Q y"
      unfolding sim_def by blast
    with 1 Inr show ?thesis by (simp add: hbind_def)
  qed
qed

lemma sim_weaken:
  "sim pre ext sa P m m' \<Longrightarrow> (\<And>x. P x \<Longrightarrow> Q x) \<Longrightarrow> sim pre ext sa Q m m'"
  unfolding sim_def by metis

lemma sim_hread:
  assumes "\<And>new. f' (pre @ ext @ map (shc (length pre) (length ext)) new) = sa (f (pre @ new))"
    and "\<And>new. P (f (pre @ new))"
  shows "sim pre ext sa P (hread f) (hread f')"
  using assms by (simp add: sim_def hread_def)

lemma sim_htry:
  assumes "\<And>new. f' (pre @ ext @ map (shc (length pre) (length ext)) new) =
                   map_sum id sa (f (pre @ new))"
  shows "sim pre ext sa (\<lambda>_. True) (htry f) (htry f')"
  using assms by (simp add: sim_def htry_def)

lemma sim_hnew:
  "sim pre ext (sh (length pre) (length ext)) (fresh (length pre))
     (hnew kvs) (hnew (map (apsnd (sh (length pre) (length ext))) kvs))"
  unfolding sim_def
proof
  fix new
  show "\<exists>r new2.
          hnew kvs (pre @ new) = (r, pre @ new2) \<and>
          hnew (map (apsnd (sh (length pre) (length ext))) kvs)
            (pre @ ext @ map (shc (length pre) (length ext)) new) =
            (map_sum id (sh (length pre) (length ext)) r,
             pre @ ext @ map (shc (length pre) (length ext)) new2) \<and>
          (\<forall>x. r = Inr x \<longrightarrow> fresh (length pre) x)"
    by (intro exI [of _ "Inr (HRef (length pre + length new))"] exI [of _ "new @ [CObj kvs]"])
      (simp add: hnew_def mv_def shc_def fresh_def)
qed

lemma sim_hget:
  assumes "closed pre"
  shows "sim pre ext (sh (length pre) (length ext)) (\<lambda>_. True)
           (hget v k) (hget (sh (length pre) (length ext) v) k)"
  by (simp add: sim_def hget_def hprop_sh [OF assms])

lemma sim_hget_old:
  assumes "closed pre" and "old (length pre) v"
  shows "sim pre ext (sh (length pre) (length ext)) (old (length pre)) (hget v k) (hget v k)"
  using hprop_sh [OF assms(1), of ext _ v k] hprop_old [OF assms, of _ k] sh_old [OF assms(2)]
  by (simp add: sim_def hget_def)

lemma sim_hentries:
  assumes "closed pre"
  shows "sim pre ext (map (apsnd (sh (length pre) (length ext)))) (\<lambda>_. True)
           (hentries v) (hentries (sh (length pre) (length ext) v))"
  by (simp add: sim_def hentries_def hprops_sh [OF assms])

lemma sim_hentries_old:
  assumes "closed pre" and "old (length pre) v"
  shows "sim pre ext (map (apsnd (sh (length pre) (length ext))))
           (\<lambda>ps. \<forall>(k, x) \<in> set ps. old (length pre) x) (hentries v) (hentries v)"
  using hprops_sh [OF assms(1), of ext _ v] hprops_old [OF assms] sh_old [OF assms(2)]
  by (simp add: sim_def hentries_def)

lemma sim_hspread:
  assumes "closed pre"
  shows "sim pre ext (map (apsnd (sh (length pre) (length ext)))) (\<lambda>_. True)
           (hspread v) (hspread (sh (length pre) (length ext) v))"
  unfolding hspread_def
  by (rule sim_hread) (simp_all add: hprops_sh [OF assms] fold_obj_put_map [where acc="[]", simplified])

lemma helements_sh:
  assumes "closed pre"
  shows "helements (sh (length pre) (length ext) v)
           (pre @ ext @ map (shc (length pre) (length ext)) new) =
         (map_sum id (map (sh (length pre) (length ext))) (fst (helements v (pre @ new))),
          pre @ ext @ map (shc (length pre) (length ext)) new) \<and>
         snd (helements v (pre @ new)) = pre @ new"
proof (cases v)
  case (HPrim j)
  then show ?thesis by (cases j) (simp_all add: helements_def o_def)
next
  case (HRef a)
  let ?h = "pre @ new" and ?h' = "pre @ ext @ map (shc (length pre) (length ext)) new"
  have "helements (HRef (mv (length pre) (length ext) a)) ?h' =
        (if a < length ?h
         then (case shc (length pre) (length ext) (?h ! a) of
                 CArr xs \<Rightarrow> (Inr xs, ?h') | CObj kvs \<Rightarrow> (Inl TypeError, ?h'))
         else (Inl TypeError, ?h'))"
    unfolding helements_def hval.case by (rule moved_read [OF assms])
  also have "\<dots> = (map_sum id (map (sh (length pre) (length ext))) (fst (helements (HRef a) ?h)), ?h')"
    by (cases "?h ! a") (simp_all add: helements_def shc_def)
  finally have 1: "helements (HRef (mv (length pre) (length ext) a)) ?h' =
      (map_sum id (map (sh (length pre) (length ext))) (fst (helements (HRef a) ?h)), ?h')" .
  have 2: "snd (helements (HRef a) ?h) = ?h"
    by (cases "?h ! a") (simp_all add: helements_def)
  from 1 2 HRef show ?thesis by simp
qed

lemma sim_helements:
  assumes "closed pre"
  shows "sim pre ext (map (sh (length pre) (length ext))) (\<lambda>_. True)
           (helements v) (helements (sh (length pre) (length ext) v))"
  unfolding sim_def
proof
  fix new
  from helements_sh [OF assms, where v=v and ext=ext and new=new]
  show "\<exists>r new2.
          helements v (pre @ new) = (r, pre @ new2) \<and>
          helements (sh (length pre) (length ext) v)
            (pre @ ext @ map (shc (length pre) (length ext)) new) =
            (map_sum id (map (sh (length pre) (length ext))) r,
             pre @ ext @ map (shc (length pre) (length ext)) new2) \<and>
          (\<forall>x. r = Inr x \<longrightarrow> True)"
    by (intro exI [of _ "fst (helements v (pre @ new))"] exI [of _ new])
      (simp add: prod_eq_iff)
qed

lemma sim_hincludes_old:
  assumes "closed pre" and "old (length pre) recv"
  shows "sim pre ext id (\<lambda>_. True) (hincludes recv key) (hincludes recv key)"
  unfolding sim_def
proof
  fix new
  show "\<exists>r new2.
          hincludes recv key (pre @ new) = (r, pre @ new2) \<and>
          hincludes recv key (pre @ ext @ map (shc (length pre) (length ext)) new) =
            (map_sum id id r, pre @ ext @ map (shc (length pre) (length ext)) new2) \<and>
          (\<forall>x. r = Inr x \<longrightarrow> True)"
  proof (cases recv)
    case (HPrim j)
    then show ?thesis by (cases "js_includes j key") (simp_all add: hincludes_def)
  next
    case (HRef a)
    with assms(2) have "a < length pre" by (simp add: old_def)
    with HRef show ?thesis
      by (cases "pre ! a") (simp_all add: hincludes_def nth_append)
  qed
qed

lemma sim_hassign:
  assumes "closed pre" and "fresh (length pre) target"
  shows "sim pre ext (sh (length pre) (length ext)) (\<lambda>_. True)
           (hassign target k v)
           (hassign (sh (length pre) (length ext) target) k (sh (length pre) (length ext) v))"
  unfolding sim_def
proof
  fix new
  from assms(2) obtain a where t: "target = HRef a" and a: "length pre \<le> a"
    by (cases target) (auto simp: fresh_def)
  let ?n = "length pre" and ?d = "length ext"
  let ?h = "pre @ new" and ?h' = "pre @ ext @ map (shc (length pre) (length ext)) new"
  note cell = moved_cell [OF assms(1), where a=a and ext=ext and new=new]
  have upd: "?h[a := c] = pre @ new[a - ?n := c]" for c
    using a by (simp add: list_update_append)
  have e: "\<not> a + ?d < ?n" "\<not> a + ?d - ?n < ?d" "a + ?d - ?n - ?d = a - ?n"
    using a by simp_all
  have upd': "?h'[mv ?n ?d a := shc ?n ?d c] = pre @ ext @ map (shc ?n ?d) (new[a - ?n := c])" for c
    using a by (simp add: list_update_append map_update mv_fresh e)
  have l: "hassign (HRef a) k v ?h =
        (Inr v, if a < length ?h
                then (case ?h ! a of CObj kvs \<Rightarrow> ?h[a := CObj (obj_put k v kvs)] | CArr xs \<Rightarrow> ?h)
                else ?h)"
    by (cases "?h ! a") (simp_all add: hassign_def)
  have "hassign (HRef (mv ?n ?d a)) k (sh ?n ?d v) ?h' =
        (Inr (sh ?n ?d v),
         if mv ?n ?d a < length ?h'
         then (case ?h' ! mv ?n ?d a of
                 CObj kvs \<Rightarrow> ?h'[mv ?n ?d a := CObj (obj_put k (sh ?n ?d v) kvs)] | CArr xs \<Rightarrow> ?h')
         else ?h')"
    by (cases "?h' ! mv ?n ?d a") (simp_all add: hassign_def del: length_append)
  also have "\<dots> =
        (Inr (sh ?n ?d v),
         if a < length ?h
         then (case shc ?n ?d (?h ! a) of
                 CObj kvs \<Rightarrow> ?h'[mv ?n ?d a := CObj (obj_put k (sh ?n ?d v) kvs)] | CArr xs \<Rightarrow> ?h')
         else ?h')"
    using cell by (simp del: length_append)
  finally have r: "hassign (HRef (mv ?n ?d a)) k (sh ?n ?d v) ?h' =
        (Inr (sh ?n ?d v),
         if a < length ?h
         then (case shc ?n ?d (?h ! a) of
                 CObj kvs \<Rightarrow> ?h'[mv ?n ?d a := CObj (obj_put k (sh ?n ?d v) kvs)] | CArr xs \<Rightarrow> ?h')
         else ?h')" .
  define new2 where "new2 =
     (if a < length ?h
      then (case ?h ! a of CObj kvs \<Rightarrow> new[a - ?n := CObj (obj_put k v kvs)] | CArr xs \<Rightarrow> new)
      else new)"
  have 1: "hassign target k v ?h = (Inr v, pre @ new2)"
    unfolding t l new2_def by (cases "?h ! a") (simp_all add: upd del: length_append list_update_append)
  have s: "shc ?n ?d (CObj (obj_put k v kvs)) =
            CObj (obj_put k (sh ?n ?d v) (map (apsnd (sh ?n ?d)) kvs))" for kvs
    by (simp add: shc_def obj_put_map)
  have 2: "hassign (sh ?n ?d target) k (sh ?n ?d v) ?h' =
           (Inr (sh ?n ?d v), pre @ ext @ map (shc ?n ?d) new2)"
  proof (cases "a < length ?h")
    case False
    then show ?thesis unfolding t sh_HRef r new2_def by simp
  next
    case True
    show ?thesis
    proof (cases "?h ! a")
      case (CArr xs)
      with True show ?thesis unfolding t sh_HRef r new2_def by (simp add: shc_def)
    next
      case (CObj kvs)
      have "shc ?n ?d (?h ! a) = CObj (map (apsnd (sh ?n ?d)) kvs)"
        using CObj by (simp add: shc_def)
      with True CObj upd' [of "CObj (obj_put k v kvs)"] show ?thesis
        unfolding t sh_HRef r new2_def s by (simp del: length_append list_update_append)
    qed
  qed
  from 1 2 show "\<exists>r new2.
          hassign target k v (pre @ new) = (r, pre @ new2) \<and>
          hassign (sh ?n ?d target) k (sh ?n ?d v) (pre @ ext @ map (shc ?n ?d) new) =
            (map_sum id (sh ?n ?d) r, pre @ ext @ map (shc ?n ?d) new2) \<and>
          (\<forall>x. r = Inr x \<longrightarrow> True)"
    by (intro exI [of _ "Inr v"] exI [of _ new2]) simp
qed

lemma sim_hmapM:
  assumes "\<And>x. x \<in> set xs \<Longrightarrow> sim pre ext sb (\<lambda>_. True) (f x) (f' (sa x))"
  shows "sim pre ext (map sb) (\<lambda>_. True) (hmapM f xs) (hmapM f' (map sa xs))"
  using assms
proof (induction xs)
  case Nil
  show ?case using sim_return [of "\<lambda>_. True" "[]" pre ext "map sb"] by simp
next
  case (Cons x xs)
  have tail: "sim pre ext (map sb) (\<lambda>_. True) (hmapM f xs) (hmapM f' (map sa xs))"
    using Cons by simp
  show ?case
    unfolding hmapM.simps list.map
  proof (rule sim_bind [where sa=sb and P="\<lambda>_. True"])
    show "sim pre ext sb (\<lambda>_. True) (f x) (f' (sa x))" using Cons.prems by simp
  next
    fix y
    show "sim pre ext (map sb) (\<lambda>_. True)
            (hbind (hmapM f xs) (\<lambda>ys. hreturn (y # ys)))
            (hbind (hmapM f' (map sa xs)) (\<lambda>ys. hreturn (sb y # ys)))"
    proof (rule sim_bind [OF tail])
      fix ys
      show "sim pre ext (map sb) (\<lambda>_. True) (hreturn (y # ys)) (hreturn (sb y # map sb ys))"
        using sim_return [of "\<lambda>_. True" "y # ys" pre ext "map sb"] by simp
    qed
  qed
qed

lemma sim_hfoldM:
  assumes "\<And>acc x. P acc \<Longrightarrow> x \<in> set xs \<Longrightarrow> sim pre ext sb P (f acc x) (f' (sb acc) (sa x))"
    and "P acc"
  shows "sim pre ext sb P (hfoldM f xs acc) (hfoldM f' (map sa xs) (sb acc))"
  using assms
proof (induction xs arbitrary: acc)
  case Nil
  then show ?case by (simp add: sim_return)
next
  case (Cons x xs)
  show ?case
    unfolding hfoldM.simps list.map
  proof (rule sim_bind [where sa=sb and P=P])
    show "sim pre ext sb P (f acc x) (f' (sb acc) (sa x))"
      using Cons.prems by simp
  next
    fix acc1 assume "P acc1"
    with Cons show "sim pre ext sb P (hfoldM f xs acc1) (hfoldM f' (map sa xs) (sb acc1))"
      by simp
  qed
qed

subsection \<open>Store: the resolver\<close>

lemma sim_return_eq: "x' = sa x \<Longrightarrow> P x \<Longrightarrow> sim pre ext sa P (hreturn x) (hreturn x')"
  by (simp add: sim_return)

lemma sim_hnew_eq:
  assumes "kvs' = map (apsnd (sh (length pre) (length ext))) kvs"
    and "\<And>x. fresh (length pre) x \<Longrightarrow> Q x"
  shows "sim pre ext (sh (length pre) (length ext)) Q (hnew kvs) (hnew kvs')"
  unfolding assms(1) by (rule sim_weaken [OF sim_hnew assms(2)])

lemma sim_bind_old:
  assumes "sim pre ext (sh (length pre) (length ext)) (old (length pre)) m m'"
    and "\<And>x. old (length pre) x \<Longrightarrow> sim pre ext sb Q (f x) (f' x)"
  shows "sim pre ext sb Q (hbind m f) (hbind m' f')"
  using assms(1)
proof (rule sim_bind)
  fix x assume "old (length pre) x"
  with assms(2) [OF this] show "sim pre ext sb Q (f x) (f' (sh (length pre) (length ext) x))"
    by (simp add: sh_old)
qed

lemma sim_isCommandVisibleH:
  assumes c: "closed pre" and o: "old (length pre) command"
  shows "sim pre ext id (\<lambda>_. True)
           (isCommandVisibleH can req command) (isCommandVisibleH can req command)"
  unfolding isCommandVisibleH_def
proof (rule sim_bind_old [OF sim_hget_old [OF c o]])
  fix permission assume p: "old (length pre) permission"
  show "sim pre ext id (\<lambda>_. True)
          (if htruthy permission
           then hbind (hget permission ''action'') (\<lambda>action.
                hbind (hget permission ''type'') (\<lambda>type.
                hbind (hget permission ''mode'') (\<lambda>mode.
                  hreturn (can req action type (hor mode (HPrim (JStr ''draft'')))))))
           else hreturn True)
          (if htruthy permission
           then hbind (hget permission ''action'') (\<lambda>action.
                hbind (hget permission ''type'') (\<lambda>type.
                hbind (hget permission ''mode'') (\<lambda>mode.
                  hreturn (can req action type (hor mode (HPrim (JStr ''draft'')))))))
           else hreturn True)"
  proof (cases "htruthy permission")
    case False
    then show ?thesis by (simp add: sim_return_eq)
  next
    case True
    show ?thesis
      unfolding if_P [OF True]
      apply (rule sim_bind_old [OF sim_hget_old [OF c p]])
      apply (rule sim_bind_old [OF sim_hget_old [OF c p]])
      apply (rule sim_bind_old [OF sim_hget_old [OF c p]])
      apply (rule sim_return_eq; simp)
      done
  qed
qed

lemma sim_visibleEntryH:
  assumes c: "closed pre" and r: "old (length pre) (removesRef self)"
    and o: "old (length pre) command"
  shows "sim pre ext (map_option (apsnd (sh (length pre) (length ext)))) (\<lambda>_. True)
           (visibleEntryH can self req (key, command)) (visibleEntryH can self req (key, command))"
  unfolding visibleEntryH_def prod.case
proof (rule sim_bind [OF sim_hincludes_old [OF c r]])
  fix removed
  show "sim pre ext (map_option (apsnd (sh (length pre) (length ext)))) (\<lambda>_. True)
          (if removed then hreturn None
           else hbind (isCommandVisibleH can req command) (\<lambda>visible.
                  hreturn (if visible then Some (key, command) else None)))
          (if id removed then hreturn None
           else hbind (isCommandVisibleH can req command) (\<lambda>visible.
                  hreturn (if visible then Some (key, command) else None)))"
  proof (cases removed)
    case True
    then show ?thesis by (simp add: sim_return_eq)
  next
    case False
    show ?thesis
      unfolding id_apply if_not_P [OF False]
      apply (rule sim_bind [OF sim_isCommandVisibleH [OF c o]])
      apply (rule sim_return_eq; simp add: sh_old [OF o])
      done
  qed
qed

lemma entries_object_map:
  assumes "f (HPrim JUndefined) = HPrim JUndefined"
  shows "entries_object (map (map_option (apsnd f)) es) = map (apsnd f) (entries_object es)"
proof -
  have "fold (\<lambda>e acc. case e of
                      Some (k, v) \<Rightarrow> obj_put k v acc
                    | None \<Rightarrow> obj_put ''undefined'' (HPrim JUndefined) acc)
          (map (map_option (apsnd f)) es) (map (apsnd f) acc) =
        map (apsnd f)
          (fold (\<lambda>e acc. case e of
                      Some (k, v) \<Rightarrow> obj_put k v acc
                    | None \<Rightarrow> obj_put ''undefined'' (HPrim JUndefined) acc) es acc)" for acc
  proof (induction es arbitrary: acc)
    case Nil
    show ?case by simp
  next
    case (Cons e es)
    show ?case
    proof (cases e)
      case None
      with Cons [of "obj_put ''undefined'' (HPrim JUndefined) acc"]
        obj_put_map [of "''undefined''" f "HPrim JUndefined" acc] assms
      show ?thesis by simp
    next
      case (Some p)
      obtain k v where "p = (k, v)" by (cases p)
      with Some Cons [of "obj_put k v acc"] obj_put_map [of k f v acc]
      show ?thesis by simp
    qed
  qed
  from this [of "[]"] show ?thesis by (simp add: entries_object_def)
qed

lemma sim_visibleCommandsH:
  assumes c: "closed pre" and r: "old (length pre) (removesRef self)"
    and o: "old (length pre) (commandsRef self)"
  shows "sim pre ext (sh (length pre) (length ext)) (\<lambda>_. True)
           (visibleCommandsH can self req) (visibleCommandsH can self req)"
  unfolding visibleCommandsH_def
proof (rule sim_bind [OF sim_hentries_old [OF c o]])
  fix cs :: "(string \<times> hval) list"
  assume old: "\<forall>(k, x) \<in> set cs. old (length pre) x"
  then have same: "map (apsnd (sh (length pre) (length ext))) cs = cs"
    by (intro map_idI) (auto simp: sh_old)
  have each: "sim pre ext (map_option (apsnd (sh (length pre) (length ext)))) (\<lambda>_. True)
                (visibleEntryH can self req x) (visibleEntryH can self req (id x))"
    if "x \<in> set cs" for x
  proof -
    obtain k v where x: "x = (k, v)" by (cases x)
    with old that have "old (length pre) v" by auto
    from sim_visibleEntryH [OF c r this] x show ?thesis by simp
  qed
  show "sim pre ext (sh (length pre) (length ext)) (\<lambda>_. True)
          (hbind (hmapM (visibleEntryH can self req) cs) (\<lambda>es. hnew (entries_object es)))
          (hbind (hmapM (visibleEntryH can self req) (map (apsnd (sh (length pre) (length ext))) cs))
             (\<lambda>es. hnew (entries_object es)))"
  proof -
    have m: "sim pre ext (map (map_option (apsnd (sh (length pre) (length ext))))) (\<lambda>_. True)
               (hmapM (visibleEntryH can self req) cs) (hmapM (visibleEntryH can self req) cs)"
      using sim_hmapM [where sa=id and f'="visibleEntryH can self req" and xs=cs, OF each]
      by simp
    show ?thesis
      unfolding same
      apply (rule sim_bind [OF m])
      apply (rule sim_hnew_eq; simp add: entries_object_map)
      done
  qed
qed

lemma sim_visibleFieldStepH:
  assumes c: "closed pre"
  shows "sim pre ext (sh (length pre) (length ext)) (\<lambda>_. True)
           (visibleFieldStepH keys visible acc field)
           (visibleFieldStepH keys (sh (length pre) (length ext) visible)
              (sh (length pre) (length ext) acc) (sh (length pre) (length ext) field))"
proof -
  let ?s = "sh (length pre) (length ext)"
  have put: "sim pre ext ?s (\<lambda>_. True)
      (hbind (hspread acc) (\<lambda>ps.
       hbind (hread (\<lambda>h. hprop h visible name)) (\<lambda>c. hnew (obj_put name c ps))))
      (hbind (hspread (?s acc)) (\<lambda>ps.
       hbind (hread (\<lambda>h. hprop h (?s visible) name)) (\<lambda>c. hnew (obj_put name c ps))))" for name
    apply (rule sim_bind [OF sim_hspread [OF c]])
    apply (rule sim_bind [where sa="?s" and P="\<lambda>_. True"])
     apply (rule sim_hread; simp add: hprop_sh [OF c])
    apply (rule sim_hnew_eq; simp add: obj_put_map)
    done
  have keep: "sim pre ext ?s (\<lambda>_. True) (hreturn acc) (hreturn (?s acc))"
    by (rule sim_return_eq) simp_all
  show ?thesis
  proof (cases field)
    case (HRef a)
    with keep show ?thesis by (simp add: visibleFieldStepH_def)
  next
    case (HPrim j)
    show ?thesis
    proof (cases j)
      case (JStr name)
      with HPrim put [of name] keep show ?thesis by (simp add: visibleFieldStepH_def)
    qed (use HPrim keep in \<open>simp_all add: visibleFieldStepH_def\<close>)
  qed
qed

lemma sim_visibleFieldsH:
  assumes c: "closed pre"
  shows "sim pre ext (sh (length pre) (length ext)) (\<lambda>_. True)
           (visibleFieldsH keys visible groupFields)
           (visibleFieldsH keys (sh (length pre) (length ext) visible)
              (sh (length pre) (length ext) groupFields))"
  unfolding visibleFieldsH_def
  apply (rule sim_bind [OF sim_helements [OF c]])
  apply (rule sim_bind [where sa="sh (length pre) (length ext)" and P="\<lambda>_. True"])
   apply (rule sim_hnew_eq; simp)
  apply (rule sim_hfoldM [where P="\<lambda>_. True"])
   apply (rule sim_visibleFieldStepH [OF c])
  apply simp
  done

lemma sim_visibleGroupH:
  assumes c: "closed pre"
  shows "sim pre ext (map_option (apsnd (sh (length pre) (length ext)))) (\<lambda>_. True)
           (visibleGroupH keys visible (key, grp))
           (visibleGroupH keys (sh (length pre) (length ext) visible)
              (key, sh (length pre) (length ext) grp))"
proof -
  let ?s = "sh (length pre) (length ext)"
  have copy: "sim pre ext (map_option (apsnd ?s)) (\<lambda>_. True)
      (hbind (hspread grp) (\<lambda>ps.
       hbind (hnew (obj_put ''fields'' fs ps)) (\<lambda>copy. hreturn (Some (key, copy)))))
      (hbind (hspread (?s grp)) (\<lambda>ps.
       hbind (hnew (obj_put ''fields'' (?s fs) ps)) (\<lambda>copy. hreturn (Some (key, copy)))))" for fs
    apply (rule sim_bind [OF sim_hspread [OF c]])
    apply (rule sim_bind [where sa="?s" and P="\<lambda>_. True"])
     apply (rule sim_hnew_eq; simp add: obj_put_map)
    apply (rule sim_return_eq; simp)
    done
  have none: "sim pre ext (map_option (apsnd ?s)) (\<lambda>_. True) (hreturn None) (hreturn None)"
    by (rule sim_return_eq) simp_all
  have tail: "sim pre ext (map_option (apsnd ?s)) (\<lambda>_. True)
      (if n \<noteq> 0
       then hbind (hspread grp) (\<lambda>ps.
            hbind (hnew (obj_put ''fields'' fs ps)) (\<lambda>copy. hreturn (Some (key, copy))))
       else hreturn None)
      (if id n \<noteq> 0
       then hbind (hspread (?s grp)) (\<lambda>ps.
            hbind (hnew (obj_put ''fields'' (?s fs) ps)) (\<lambda>copy. hreturn (Some (key, copy))))
       else hreturn None)" for n :: nat and fs
    using copy [of fs] none by (cases "n = 0") simp_all
  show ?thesis
    unfolding visibleGroupH_def prod.case
    apply (rule sim_bind [OF sim_hget [OF c]])
    apply (rule sim_bind [OF sim_visibleFieldsH [OF c]])
    apply (rule sim_bind [where sa=id and P="\<lambda>_. True"])
     apply (rule sim_hread; simp add: hprops_sh [OF c])
    apply (rule tail)
    done
qed

lemma sim_getVisibleGroupsH:
  assumes c: "closed pre" and o: "old (length pre) (groupsRef self)"
  shows "sim pre ext (sh (length pre) (length ext)) (fresh (length pre))
           (getVisibleGroupsH self visible)
           (getVisibleGroupsH self (sh (length pre) (length ext) visible))"
proof -
  let ?s = "sh (length pre) (length ext)"
  have each: "sim pre ext (map_option (apsnd ?s)) (\<lambda>_. True)
                (visibleGroupH keys visible x) (visibleGroupH keys (?s visible) (apsnd ?s x))"
    for keys x
    using sim_visibleGroupH [OF c, of ext keys visible "fst x" "snd x"] by (cases x) simp
  have f: "filter (\<lambda>e. e \<noteq> None) (map (map_option (apsnd ?s)) es) =
           map (map_option (apsnd ?s)) (filter (\<lambda>e. e \<noteq> None) es)" for es
    by (induction es) auto
  have g: "sim pre ext (map (apsnd ?s)) (\<lambda>_. True)
             (hentries (groupsRef self)) (hentries (groupsRef self))"
    using sim_hentries [OF c, of ext "groupsRef self"] by (simp add: sh_old [OF o])
  show ?thesis
    unfolding getVisibleGroupsH_def
    apply (rule sim_bind [where sa=id and P="\<lambda>_. True"])
     apply (rule sim_hread; simp add: hprops_sh [OF c] o_def)
    apply (rule sim_bind [OF g])
    apply (simp only: id_apply)
    apply (rule sim_bind [OF sim_hmapM [where f'="visibleGroupH keys (?s visible)" and sa="apsnd ?s" for keys, OF each]])
    apply (rule sim_hnew_eq)
     apply (simp only: f)
     apply (rule entries_object_map)
     apply simp_all
    done
qed

lemma sim_hspreadLooked:
  assumes c: "closed pre"
  shows "sim pre ext (map (apsnd (sh (length pre) (length ext)))) (\<lambda>_. True)
           (hspreadLooked r) (hspreadLooked (shl (length pre) (length ext) r))"
proof (cases r)
  case (HValue v)
  with sim_hspread [OF c, of ext v] show ?thesis by (simp add: hspreadLooked_def shl_def)
next
  case (HBuiltin b)
  then show ?thesis by (simp add: hspreadLooked_def shl_def sim_return_eq)
qed

lemma sim_hspreadOr:
  assumes c: "closed pre"
  shows "sim pre ext (map (apsnd (sh (length pre) (length ext)))) (\<lambda>_. True)
           (hspreadOr r v) (hspreadOr (shl (length pre) (length ext) r) (sh (length pre) (length ext) v))"
proof (cases r)
  case (HValue x)
  with sim_hspread [OF c, of ext "hor x v"] show ?thesis
    by (simp add: hspreadOr_def shl_def hor_sh)
next
  case (HBuiltin b)
  then show ?thesis by (simp add: hspreadOr_def shl_def sim_return_eq)
qed

lemma sim_haccAssign:
  assumes c: "closed pre" and a: "fresh (length pre) (fst acc)"
  shows "sim pre ext (sha (length pre) (length ext)) (\<lambda>acc'. fresh (length pre) (fst acc'))
           (haccAssign acc k entry)
           (haccAssign (sha (length pre) (length ext) acc) k (sh (length pre) (length ext) entry))"
proof -
  let ?s = "sh (length pre) (length ext)"
  obtain target proto where acc: "acc = (target, proto)" by (cases acc)
  with a have t: "fresh (length pre) target" by simp
  have isref: "(case ?s target of HPrim j \<Rightarrow> False | HRef a \<Rightarrow> True) =
               (case target of HPrim j \<Rightarrow> False | HRef a \<Rightarrow> True)"
    by (cases target) simp_all
  have tail: "sim pre ext (sha (length pre) (length ext)) (\<lambda>acc'. fresh (length pre) (fst acc'))
      (if setter then hreturn (target, Some entry)
       else hbind (hassign target k entry) (\<lambda>_. hreturn (target, proto)))
      (if id setter then hreturn (?s target, Some (?s entry))
       else hbind (hassign (?s target) k (?s entry)) (\<lambda>_. hreturn (?s target, map_option ?s proto)))"
    for setter
  proof (cases setter)
    case True
    with t show ?thesis by (simp add: sim_return_eq)
  next
    case False
    show ?thesis
      unfolding id_apply if_not_P [OF False]
      apply (rule sim_bind [OF sim_hassign [OF c t]])
      apply (rule sim_return_eq; simp add: t)
      done
  qed
  show ?thesis
    unfolding acc haccAssign_def sha_pair prod.case
    apply (rule sim_bind [where sa=id and P="\<lambda>_. True"])
     apply (rule sim_hread; simp add: hown_sh [OF c] isref split: option.splits)
    apply (rule tail)
    done
qed

lemma sim_modalStepH:
  assumes c: "closed pre" and a: "fresh (length pre) (fst acc)"
  shows "sim pre ext (sha (length pre) (length ext)) (\<lambda>acc'. fresh (length pre) (fst acc'))
           (modalStepH host key grp acc (name, field))
           (modalStepH host key (sh (length pre) (length ext) grp) (sha (length pre) (length ext) acc)
              (name, sh (length pre) (length ext) field))"
  unfolding modalStepH_def prod.case
  apply (rule sim_bind [OF sim_hget [OF c]])
  apply (rule sim_bind [where sa=id and P="\<lambda>_. True"])
   apply (rule sim_htry; simp add: hstring_sh [OF c] hor_sh [where b="HPrim JNull", simplified] sum.map_id0)
  apply (simp only: id_apply)
  apply (rule sim_bind [where sa="shl (length pre) (length ext)" and P="\<lambda>_. True"])
   apply (rule sim_htry; simp add: haccMember_sh [OF c])
  apply (rule sim_bind [where sa="shl (length pre) (length ext)" and P="\<lambda>_. True"])
   apply (rule sim_htry; simp add: hlookedMember_sh [OF c])
  apply (rule sim_bind [where sa="sh (length pre) (length ext)" and P="\<lambda>_. True"])
   apply (rule sim_hread; simp add: hlookedFields_sh [OF c])
  apply (rule sim_bind [OF sim_hspread [OF c]])
  apply (rule sim_bind [where sa="sh (length pre) (length ext)" and P="\<lambda>_. True"])
   apply (rule sim_hnew_eq; simp add: obj_put_map)
  apply (rule sim_bind [OF sim_hspreadOr [OF c]])
  apply (rule sim_bind [where sa="sh (length pre) (length ext)" and P="\<lambda>_. True"])
   apply (rule sim_hnew_eq; simp add: obj_put_map)
  apply (rule sim_bind [OF sim_hspreadLooked [OF c]])
  apply (rule sim_bind [where sa="sh (length pre) (length ext)" and P="\<lambda>_. True"])
   apply (rule sim_hnew_eq; simp add: obj_put_map)
  apply (rule sim_haccAssign [OF c a])
  done

lemma sim_modalGroupH:
  assumes c: "closed pre" and a: "fresh (length pre) (fst acc)"
  shows "sim pre ext (sha (length pre) (length ext)) (\<lambda>acc'. fresh (length pre) (fst acc'))
           (modalGroupH host acc (key, grp))
           (modalGroupH host (sha (length pre) (length ext) acc) (key, sh (length pre) (length ext) grp))"
proof -
  let ?s = "sh (length pre) (length ext)" and ?a = "sha (length pre) (length ext)"
  have each: "sim pre ext ?a (\<lambda>acc'. fresh (length pre) (fst acc'))
                (modalStepH host key grp acc x) (modalStepH host key (?s grp) (?a acc) (apsnd ?s x))"
    if "fresh (length pre) (fst acc)" for acc x
    using sim_modalStepH [OF c that, of ext host key grp "fst x" "snd x"] by (cases x) simp
  show ?thesis
    unfolding modalGroupH_def prod.case
    apply (rule sim_bind [OF sim_hget [OF c]])
    apply (rule sim_bind [OF sim_hentries [OF c]])
    apply (rule sim_hfoldM [where f="modalStepH host key grp" and f'="modalStepH host key (?s grp)"
          and sa="apsnd ?s" and sb="?a" and P="\<lambda>acc'. fresh (length pre) (fst acc')"])
     apply (erule each)
    apply (rule a)
    done
qed

lemma sim_getVisibleModalsH:
  assumes c: "closed pre" and o: "old (length pre) (groupsRef self)"
  shows "sim pre ext (sha (length pre) (length ext)) (\<lambda>_. True)
           (getVisibleModalsH host self visible)
           (getVisibleModalsH host self (sh (length pre) (length ext) visible))"
proof -
  let ?s = "sh (length pre) (length ext)" and ?a = "sha (length pre) (length ext)"
  have each: "sim pre ext ?a (\<lambda>acc'. fresh (length pre) (fst acc'))
                (modalGroupH host acc x) (modalGroupH host (?a acc) (apsnd ?s x))"
    if "fresh (length pre) (fst acc)" for acc x
    using sim_modalGroupH [OF c that, of ext host "fst x" "snd x"] by (cases x) simp
  have fold: "sim pre ext ?a (\<lambda>_. True)
                (hfoldM (modalGroupH host) gs (empty, None))
                (hfoldM (modalGroupH host) (map (apsnd ?s) gs) (?s empty, None))"
    if "fresh (length pre) empty" for gs empty
  proof -
    have "sim pre ext ?a (\<lambda>acc'. fresh (length pre) (fst acc'))
            (hfoldM (modalGroupH host) gs (empty, None))
            (hfoldM (modalGroupH host) (map (apsnd ?s) gs) (?a (empty, None)))"
      apply (rule sim_hfoldM [where f="modalGroupH host" and f'="modalGroupH host"
            and sa="apsnd ?s" and sb="?a" and P="\<lambda>acc'. fresh (length pre) (fst acc')"])
       apply (erule each)
      apply (simp add: that)
      done
    then show ?thesis by (simp add: sim_weaken)
  qed
  show ?thesis
    unfolding getVisibleModalsH_def
    apply (rule sim_bind [OF sim_getVisibleGroupsH [OF c o]])
    apply (rule sim_bind [OF sim_hentries [OF c]])
    apply (rule sim_bind [where sa="?s" and P="fresh (length pre)"])
     apply (rule sim_hnew_eq; simp)
    apply (erule fold)
    done
qed

lemma sim_getVisibleH:
  assumes c: "closed pre"
    and "old (length pre) (removesRef self)"
    and "old (length pre) (commandsRef self)"
    and "old (length pre) (groupsRef self)"
  shows "sim pre ext (sha (length pre) (length ext)) (\<lambda>_. True)
           (getVisibleH host can self req) (getVisibleH host can self req)"
proof -
  let ?s = "sh (length pre) (length ext)" and ?a = "sha (length pre) (length ext)"
  have tail: "sim pre ext ?a (\<lambda>_. True)
      (case acc of (visibleModals, prototype) \<Rightarrow>
         hbind (hnew [(''groups'', visibleGroups), (''modals'', visibleModals)]) (\<lambda>view.
           hreturn (view, prototype)))
      (case ?a acc of (visibleModals, prototype) \<Rightarrow>
         hbind (hnew [(''groups'', ?s visibleGroups), (''modals'', visibleModals)]) (\<lambda>view.
           hreturn (view, prototype)))" for acc visibleGroups
  proof -
    obtain m p where acc: "acc = (m, p)" by (cases acc)
    show ?thesis
      unfolding acc sha_pair prod.case
      apply (rule sim_bind [where sa="?s" and P="\<lambda>_. True"])
       apply (rule sim_hnew_eq; simp)
      apply (rule sim_return_eq; simp)
      done
  qed
  show ?thesis
    unfolding getVisibleH_def
    apply (rule sim_bind [OF sim_visibleCommandsH [OF assms(1,2,3)]])
    apply (rule sim_bind [OF sim_getVisibleGroupsH [OF assms(1,4)]])
    apply (rule sim_bind [OF sim_getVisibleModalsH [OF assms(1,4)]])
    apply (rule tail)
    done
qed

subsection \<open>Resolution neither changes the stored structures nor its own result\<close>

lemma shc_zero [simp]: "shc n 0 c = c"
proof -
  have "apsnd (sh n 0) p = p" for p :: "string \<times> hval" by (cases p) simp
  then show ?thesis by (cases c) (simp_all add: shc_def map_idI)
qed

lemma load_value_sh:
  assumes "closed pre"
  shows "load_value k (pre @ ext @ map (shc (length pre) (length ext)) new)
           (sh (length pre) (length ext) v) =
         load_value k (pre @ new) v"
proof (induction k arbitrary: v)
  case 0
  show ?case by (cases v) simp_all
next
  case (Suc k)
  let ?n = "length pre" and ?d = "length ext"
  let ?h = "pre @ new" and ?h' = "pre @ ext @ map (shc (length pre) (length ext)) new"
  show ?case
  proof (cases v)
    case (HPrim j)
    then show ?thesis by simp
  next
    case (HRef a)
    have "load_value (Suc k) ?h' (HRef (mv ?n ?d a)) =
          (if a < length ?h
           then (case shc ?n ?d (?h ! a) of
                   CObj kvs \<Rightarrow> JObj (map (\<lambda>(k', v). (k', load_value k ?h' v)) kvs)
                 | CArr xs \<Rightarrow> JArr (map (load_value k ?h') xs))
           else JUndefined)"
      unfolding load_value.simps by (rule moved_read [OF assms])
    also have "\<dots> = load_value (Suc k) ?h (HRef a)"
      by (cases "?h ! a") (simp_all add: shc_def o_def split_beta Suc.IH del: sh_HRef)
    finally show ?thesis using HRef by simp
  qed
qed

text \<open>
  At the state published from \<open>shadowing_fragment\<close>, where the modal view is given a
  prototype, the resolver over the store returns what \<^const>\<open>getVisible\<close> returns.
\<close>

lemma getVisibleH_shadowing_menu:
  "(case store_menu shadowing_menu of
      (hs, h) \<Rightarrow> (case getVisibleH example_host draft_only_h hs editor_req h of
                    (r, h1) \<Rightarrow> map_sum id (map_prod (load_value 9 h1) (map_option (load_value 9 h1))) r)) =
     getVisible example_host draft_only shadowing_menu editor_req"
  by code_simp

text \<open>
  Claim C9, over the store. \<open>h\<close> is a store without dangling references that holds the
  removal array, the command table and the group table. A first resolution returns
  \<open>r1\<close> and the store \<open>h1\<close>, a second one, started in \<open>h1\<close>, returns \<open>r2\<close> and \<open>h2\<close>. Then
  \<open>h1\<close> begins with \<open>h\<close> and \<open>h2\<close> begins with \<open>h1\<close>: no cell that existed before a run is
  changed by it, so neither run changes a stored command, group or removal structure, and
  the second run does not change the result of the first. Both runs throw the same
  exception, or both return, and then the two views read back as the same value, to
  every depth, and so do the prototypes of their modal views, which both have one or
  both have none.
\<close>

theorem getVisibleH_idempotent:
  assumes "closed h"
    and "old (length h) (removesRef self)"
    and "old (length h) (commandsRef self)"
    and "old (length h) (groupsRef self)"
  shows "\<exists>r1 h1 r2 h2.
           getVisibleH host can self req h = (r1, h1) \<and>
           getVisibleH host can self req h1 = (r2, h2) \<and>
           take (length h) h1 = h \<and>
           take (length h1) h2 = h1 \<and>
           rel_sum (=)
             (\<lambda>(v1, p1) (v2, p2).
                (\<forall>k. load_value k h2 v2 = load_value k h1 v1) \<and>
                rel_option (\<lambda>q1 q2. \<forall>k. load_value k h2 q2 = load_value k h1 q1) p1 p2)
             r1 r2"
proof -
  from sim_getVisibleH [OF assms, of "[]" host can req] obtain r1 new1 where
    1: "getVisibleH host can self req h = (r1, h @ new1)"
    unfolding sim_def by (metis append_Nil2)
  from sim_getVisibleH [OF assms, of new1 host can req] obtain r new2 where
    "getVisibleH host can self req (h @ []) = (r, h @ new2)" and
    2: "getVisibleH host can self req (h @ new1 @ map (shc (length h) (length new1)) []) =
          (map_sum id (sha (length h) (length new1)) r,
           h @ new1 @ map (shc (length h) (length new1)) new2)"
    unfolding sim_def by blast
  with 1 have "r = r1" "new2 = new1" by simp_all
  with 2 have 3: "getVisibleH host can self req (h @ new1) =
          (map_sum id (sha (length h) (length new1)) r1,
           h @ new1 @ map (shc (length h) (length new1)) new1)"
    by simp
  have "rel_sum (=)
          (\<lambda>(v1, p1) (v2, p2).
             (\<forall>k. load_value k (h @ new1 @ map (shc (length h) (length new1)) new1) v2 =
                  load_value k (h @ new1) v1) \<and>
             rel_option
               (\<lambda>q1 q2. \<forall>k. load_value k (h @ new1 @ map (shc (length h) (length new1)) new1) q2 =
                             load_value k (h @ new1) q1) p1 p2)
          r1 (map_sum id (sha (length h) (length new1)) r1)"
  proof (cases r1)
    case (Inl e)
    then show ?thesis by simp
  next
    case (Inr x)
    obtain v p where x: "x = (v, p)" by (cases x)
    with Inr show ?thesis
      by (cases p) (simp_all add: load_value_sh [OF assms(1)])
  qed
  with 1 3 show ?thesis
    by (intro exI [of _ r1] exI [of _ "h @ new1"]
        exI [of _ "map_sum id (sha (length h) (length new1)) r1"]
        exI [of _ "h @ new1 @ map (shc (length h) (length new1)) new1"]) simp
qed

theorem getVisibleH_idempotent_witness:
  "closed (snd (store_menu small_menu)) \<and>
   old (length (snd (store_menu small_menu))) (removesRef (fst (store_menu small_menu))) \<and>
   old (length (snd (store_menu small_menu))) (commandsRef (fst (store_menu small_menu))) \<and>
   old (length (snd (store_menu small_menu))) (groupsRef (fst (store_menu small_menu))) \<and>
   (case store_menu small_menu of
      (hs, h) \<Rightarrow> (case getVisibleH example_host draft_only_h hs editor_req h of
                    (r, h1) \<Rightarrow> map_sum id (map_prod (load_value 6 h1) (map_option (load_value 6 h1))) r)) =
     getVisible example_host draft_only small_menu editor_req \<and>
   (\<exists>r1 h1 r2 h2.
      getVisibleH example_host draft_only_h (fst (store_menu small_menu)) editor_req
        (snd (store_menu small_menu)) = (r1, h1) \<and>
      getVisibleH example_host draft_only_h (fst (store_menu small_menu)) editor_req h1 = (r2, h2) \<and>
      take (length (snd (store_menu small_menu))) h1 = snd (store_menu small_menu) \<and>
      take (length h1) h2 = h1 \<and>
      rel_sum (=)
        (\<lambda>(v1, p1) (v2, p2).
           (\<forall>k. load_value k h2 v2 = load_value k h1 v1) \<and>
           rel_option (\<lambda>q1 q2. \<forall>k. load_value k h2 q2 = load_value k h1 q1) p1 p2)
        r1 r2)"
proof -
  have c: "closed (snd (store_menu small_menu))" by code_simp
  have r: "old (length (snd (store_menu small_menu))) (removesRef (fst (store_menu small_menu)))"
    by code_simp
  have o: "old (length (snd (store_menu small_menu))) (commandsRef (fst (store_menu small_menu)))"
    by code_simp
  have g: "old (length (snd (store_menu small_menu))) (groupsRef (fst (store_menu small_menu)))"
    by code_simp
  have v: "(case store_menu small_menu of
      (hs, h) \<Rightarrow> (case getVisibleH example_host draft_only_h hs editor_req h of
                    (r, h1) \<Rightarrow> map_sum id (map_prod (load_value 6 h1) (map_option (load_value 6 h1))) r)) =
     getVisible example_host draft_only small_menu editor_req"
    by code_simp
  from getVisibleH_idempotent [OF c r o g, of example_host draft_only_h editor_req] c r o g v
  show ?thesis by blast
qed

end
